theory Spec2Isabelle
  imports Complex_Main "HOL-Library.Char_ord" "HOL-Library.List_Lexorder" "HOL-Library.Multiset"
begin

section \<open>Python values, dictionaries and errors\<close>

text \<open>
  A session is a Python \<^verbatim>\<open>dict\<close> with string keys, read from and written to a JSON
  file. Its values are JSON values. A dictionary is an association list in insertion
  order: a lookup takes the first binding of a key, an assignment replaces the binding
  in place or appends a new one, as a Python \<^verbatim>\<open>dict\<close> does. A float is given
  by the real number it holds (infinities and NaN are not values of the model), and
  strings are ASCII text (one \<^typ>\<open>char\<close> per character).
\<close>

datatype json =
    JNull
  | JBool bool
  | JInt int
  | JFloat real
  | JStr string
  | JArr "json list"
  | JObj "(string \<times> json) list"

type_synonym pydict = "(string \<times> json) list"

datatype py_error =
  KeyError | TypeError | ValueError | AttributeError | IndexError | OSError | OverflowError

definition dict_get :: "('k \<times> 'v) list \<Rightarrow> 'k \<Rightarrow> 'v option" where
  "dict_get d k = map_of d k"

fun dict_set :: "('k \<times> 'v) list \<Rightarrow> 'k \<Rightarrow> 'v \<Rightarrow> ('k \<times> 'v) list" where
  "dict_set [] k v = [(k, v)]"
| "dict_set ((k', v') # d) k v = (if k' = k then (k, v) # d else (k', v') # dict_set d k v)"

text \<open>\<^verbatim>\<open>d[k]\<close> raises \<^verbatim>\<open>KeyError\<close> on a missing key.\<close>

definition dict_item :: "pydict \<Rightarrow> string \<Rightarrow> py_error + json" where
  "dict_item d k = (case dict_get d k of None \<Rightarrow> Inl KeyError | Some v \<Rightarrow> Inr v)"

text \<open>\<^verbatim>\<open>d.get(k, default)\<close> and \<^verbatim>\<open>d.setdefault(k, default)\<close>.\<close>

definition dict_get_default :: "pydict \<Rightarrow> string \<Rightarrow> json \<Rightarrow> json" where
  "dict_get_default d k dflt = (case dict_get d k of None \<Rightarrow> dflt | Some v \<Rightarrow> v)"

definition setdefault :: "pydict \<Rightarrow> string \<Rightarrow> json \<Rightarrow> pydict" where
  "setdefault d k dflt = (case dict_get d k of None \<Rightarrow> dict_set d k dflt | Some v \<Rightarrow> d)"

text \<open>Truth value of a Python object, and \<^verbatim>\<open>a or b\<close>.\<close>

fun truthy :: "json \<Rightarrow> bool" where
  "truthy JNull = False"
| "truthy (JBool b) = b"
| "truthy (JInt i) = (i \<noteq> 0)"
| "truthy (JFloat r) = (r \<noteq> 0)"
| "truthy (JStr s) = (s \<noteq> [])"
| "truthy (JArr xs) = (xs \<noteq> [])"
| "truthy (JObj kvs) = (kvs \<noteq> [])"

definition py_or :: "json \<Rightarrow> json \<Rightarrow> json" where
  "py_or a b = (if truthy a then a else b)"

section \<open>Calendar dates (\<^verbatim>\<open>datetime\<close>)\<close>

text \<open>
  The program parses dates with \<^verbatim>\<open>datetime.strptime(s, '%Y-%m-%d')\<close>, subtracts
  \<^verbatim>\<open>date\<close> objects and reads the ISO week. These are the standard library's
  algorithms on the proleptic Gregorian calendar: the ordinal of a date is the number of
  days since 0001-01-01 (which is day 1), and the difference of two dates is the
  difference of their ordinals.
\<close>

datatype date = Date (year: int) (month: int) (day: int)

definition is_leap :: "int \<Rightarrow> bool" where
  "is_leap y = (y mod 4 = 0 \<and> (y mod 100 \<noteq> 0 \<or> y mod 400 = 0))"

definition days_before_year :: "int \<Rightarrow> int" where
  "days_before_year yr = (let y = yr - 1 in y * 365 + y div 4 - y div 100 + y div 400)"

definition DAYS_IN_MONTH :: "int list" where
  "DAYS_IN_MONTH = [-1, 31, 28, 31, 30, 31, 30, 31, 31, 30, 31, 30, 31]"

definition DAYS_BEFORE_MONTH :: "int list" where
  "DAYS_BEFORE_MONTH = [-1, 0, 31, 59, 90, 120, 151, 181, 212, 243, 273, 304, 334]"

definition days_in_month :: "int \<Rightarrow> int \<Rightarrow> int" where
  "days_in_month y m = (if m = 2 \<and> is_leap y then 29 else DAYS_IN_MONTH ! nat m)"

definition days_before_month :: "int \<Rightarrow> int \<Rightarrow> int" where
  "days_before_month y m = DAYS_BEFORE_MONTH ! nat m + (if m > 2 \<and> is_leap y then 1 else 0)"

definition ymd2ord :: "int \<Rightarrow> int \<Rightarrow> int \<Rightarrow> int" where
  "ymd2ord y m d = days_before_year y + days_before_month y m + d"

definition toordinal :: "date \<Rightarrow> int" where
  "toordinal dt = ymd2ord (year dt) (month dt) (day dt)"

text \<open>\<^verbatim>\<open>(a - b).days\<close> for two dates.\<close>

definition days_between :: "date \<Rightarrow> date \<Rightarrow> int" where
  "days_between a b = toordinal a - toordinal b"

text \<open>
  The constructor \<^verbatim>\<open>date(year, month, day)\<close> checks its fields and raises
  \<^verbatim>\<open>ValueError\<close> outside \<open>1 \<le> year \<le> 9999\<close>, \<open>1 \<le> month \<le> 12\<close>,
  \<open>1 \<le> day \<le> days_in_month\<close>.
\<close>

definition check_date_fields :: "int \<Rightarrow> int \<Rightarrow> int \<Rightarrow> py_error + date" where
  "check_date_fields y m d =
     (if \<not> (1 \<le> y \<and> y \<le> 9999) then Inl ValueError
      else if \<not> (1 \<le> m \<and> m \<le> 12) then Inl ValueError
      else if \<not> (1 \<le> d \<and> d \<le> days_in_month y m) then Inl ValueError
      else Inr (Date y m d))"

definition is_digit :: "char \<Rightarrow> bool" where
  "is_digit c = (c \<in> set ''0123456789'')"

definition is_digit19 :: "char \<Rightarrow> bool" where
  "is_digit19 c = (c \<in> set ''123456789'')"

definition digit_val :: "char \<Rightarrow> int" where
  "digit_val c = int (of_char c) - 48"

text \<open>
  \<^verbatim>\<open>strptime\<close> turns the format \<^verbatim>\<open>%Y-%m-%d\<close> into the regular expression
  \<^verbatim>\<open>(\d\d\d\d)-(1[0-2]|0[1-9]|[1-9])-(3[0-1]|[1-2]\d|0[1-9]|[1-9]| [1-9])\<close>, matches
  it at the start of the string, and raises \<^verbatim>\<open>ValueError\<close> when it does not match
  or when text remains after the match. The alternatives are tried in order; a month
  alternative is taken only when a \<^verbatim>\<open>-\<close> follows it.
  \<open>match_month\<close> returns the month and the text after the dash, \<open>match_day\<close> the
  day and the text left over.
\<close>

fun match_year :: "string \<Rightarrow> (int \<times> string) option" where
  "match_year (a # b # c # d # e # rest) =
     (if is_digit a \<and> is_digit b \<and> is_digit c \<and> is_digit d \<and> e = CHR ''-''
      then Some (1000 * digit_val a + 100 * digit_val b + 10 * digit_val c + digit_val d, rest)
      else None)"
| "match_year _ = None"

fun match_month :: "string \<Rightarrow> (int \<times> string) option" where
  "match_month (a # b # rest) =
     (if a = CHR ''1'' \<and> b \<in> set ''012'' \<and> (case rest of c # _ \<Rightarrow> c = CHR ''-'' | [] \<Rightarrow> False)
        then Some (10 + digit_val b, tl rest)
      else if a = CHR ''0'' \<and> is_digit19 b \<and> (case rest of c # _ \<Rightarrow> c = CHR ''-'' | [] \<Rightarrow> False)
        then Some (digit_val b, tl rest)
      else if is_digit19 a \<and> b = CHR ''-'' then Some (digit_val a, rest)
      else None)"
| "match_month _ = None"

fun match_day :: "string \<Rightarrow> (int \<times> string) option" where
  "match_day (a # b # rest) =
     (if a = CHR ''3'' \<and> b \<in> set ''01'' then Some (30 + digit_val b, rest)
      else if a \<in> set ''12'' \<and> is_digit b then Some (10 * digit_val a + digit_val b, rest)
      else if a = CHR ''0'' \<and> is_digit19 b then Some (digit_val b, rest)
      else if is_digit19 a then Some (digit_val a, b # rest)
      else if a = CHR '' '' \<and> is_digit19 b then Some (digit_val b, rest)
      else None)"
| "match_day [a] = (if is_digit19 a then Some (digit_val a, []) else None)"
| "match_day [] = None"

definition strptime_ymd :: "string \<Rightarrow> py_error + date" where
  "strptime_ymd s =
     (case match_year s of
        None \<Rightarrow> Inl ValueError
      | Some (y, s1) \<Rightarrow>
          (case match_month s1 of
             None \<Rightarrow> Inl ValueError
           | Some (m, s2) \<Rightarrow>
               (case match_day s2 of
                  None \<Rightarrow> Inl ValueError
                | Some (d, s3) \<Rightarrow>
                    if s3 \<noteq> [] then Inl ValueError else check_date_fields y m d)))"

text \<open>
  \<^verbatim>\<open>datetime.strptime(v, '%Y-%m-%d')\<close> on a value taken from a dictionary: anything
  but a string raises \<^verbatim>\<open>TypeError\<close>.
\<close>

fun strptime :: "json \<Rightarrow> py_error + date" where
  "strptime (JStr s) = strptime_ymd s"
| "strptime _ = Inl TypeError"

text \<open>ISO week number, \<^verbatim>\<open>isocalendar()[1]\<close>.\<close>

definition isoweek1monday :: "int \<Rightarrow> int" where
  "isoweek1monday yr =
     (let firstday = ymd2ord yr 1 1;
          firstweekday = (firstday + 6) mod 7;
          week1monday = firstday - firstweekday
      in if firstweekday > 3 then week1monday + 7 else week1monday)"

definition isocalendar_week :: "date \<Rightarrow> int" where
  "isocalendar_week dt =
     (let yr = year dt;
          week1monday = isoweek1monday yr;
          today = ymd2ord (year dt) (month dt) (day dt);
          week = (today - week1monday) div 7
      in if week < 0 then (today - isoweek1monday (yr - 1)) div 7 + 1
         else if week \<ge> 52 \<and> today \<ge> isoweek1monday (yr + 1) then 0 + 1
         else week + 1)"

text \<open>Decimal rendering of integers, with the zero padding of a format such as \<^verbatim>\<open>02\<close>.\<close>

definition digit_char :: "nat \<Rightarrow> char" where
  "digit_char n = ''0123456789'' ! n"

fun digits10 :: "nat \<Rightarrow> string" where
  "digits10 n = (if n < 10 then [digit_char n] else digits10 (n div 10) @ [digit_char (n mod 10)])"

declare digits10.simps [simp del]

definition zfill :: "nat \<Rightarrow> string \<Rightarrow> string" where
  "zfill w s = replicate (w - length s) (CHR ''0'') @ s"

definition format_0w :: "nat \<Rightarrow> int \<Rightarrow> string" where
  "format_0w w n =
     (if n < 0 then CHR ''-'' # zfill (w - 1) (digits10 (nat (- n))) else zfill w (digits10 (nat n)))"

text \<open>\<^verbatim>\<open>date.isoformat()\<close>, the form in which the program writes a session's date.\<close>

definition isoformat :: "date \<Rightarrow> string" where
  "isoformat dt = format_0w 4 (year dt) @ ''-'' @ format_0w 2 (month dt) @ ''-'' @ format_0w 2 (day dt)"

section \<open>Progress bar (\<^verbatim>\<open>generate_progress_bar\<close>)\<close>

text \<open>\<^verbatim>\<open>int(x)\<close> on a float truncates towards zero.\<close>

definition py_int :: "real \<Rightarrow> int" where
  "py_int x = (if x \<ge> 0 then \<lfloor>x\<rfloor> else \<lceil>x\<rceil>)"

text \<open>\<^verbatim>\<open>s * n\<close> on a string: \<open>n\<close> copies, none when \<open>n \<le> 0\<close>.\<close>

definition str_repeat :: "string \<Rightarrow> int \<Rightarrow> string" where
  "str_repeat s n = concat (replicate (nat n) s)"

text \<open>
  The format \<^verbatim>\<open>.1f\<close>: the value rounded to one decimal, ties to the even digit, with a
  minus sign for a negative value.
\<close>

definition round_half_even :: "real \<Rightarrow> int" where
  "round_half_even r =
     (let f = \<lfloor>r\<rfloor>; d = r - of_int f
      in if d < 1 / 2 then f else if d > 1 / 2 then f + 1 else if even f then f else f + 1)"

definition format_1f :: "real \<Rightarrow> string" where
  "format_1f x =
     (let t = nat (round_half_even (\<bar>x\<bar> * 10))
      in (if x < 0 then ''-'' else []) @ digits10 (t div 10) @ ''.'' @ digits10 (t mod 10))"

definition bar_cells :: "real \<Rightarrow> int \<Rightarrow> string" where
  "bar_cells percentage width =
     (let filled = py_int (percentage * of_int width / 100);
          empty = width - filled
      in str_repeat ''#'' filled @ str_repeat ''.'' empty)"

definition generate_progress_bar :: "real \<Rightarrow> int \<Rightarrow> string" where
  "generate_progress_bar percentage width =
     ''['' @ bar_cells percentage width @ ''] '' @ format_1f percentage @ ''%''"

section \<open>Double-precision arithmetic\<close>

text \<open>
  Python floats are IEEE 754 binary64 numbers: 53 significant bits, results rounded to
  the nearest representable number, ties to the even one. \<open>fl x\<close> is the number that
  rounding gives for the exact value \<open>x\<close>, with the exponent unbounded above: the spacing
  of the representable numbers around \<open>x\<close> is \<open>2\<close> to the power \<open>e - 52\<close>, where
  \<open>2 ^ e \<le> \<bar>x\<bar> < 2 ^ (e + 1)\<close>, and never less than \<open>2 ^ (- 1074)\<close> (the subnormal
  numbers). A result overflows when it rounds to \<open>2 ^ 1024\<close> or more in magnitude.
\<close>

fun bit_length :: "nat \<Rightarrow> nat" where
  "bit_length n = (if n = 0 then 0 else Suc (bit_length (n div 2)))"

declare bit_length.simps [simp del]

definition pow2 :: "int \<Rightarrow> real" where
  "pow2 k = (if 0 \<le> k then 2 ^ nat k else 1 / 2 ^ nat (- k))"

definition float_exponent :: "real \<Rightarrow> int" where
  "float_exponent x =
     (if 1 \<le> \<bar>x\<bar> then int (bit_length (nat \<lfloor>\<bar>x\<bar>\<rfloor>)) - 1
      else - int (bit_length (nat (\<lceil>1 / \<bar>x\<bar>\<rceil> - 1))))"

definition fl :: "real \<Rightarrow> real" where
  "fl x =
     (if x = 0 then 0
      else let e = max (float_exponent x) (- 1022);
               ulp = pow2 (e - 52)
           in of_int (round_half_even (x / ulp)) * ulp)"

datatype pyfloat = Finite real | PosInf | NegInf

section \<open>Goal progress (\<^verbatim>\<open>calculate_progress\<close>)\<close>

text \<open>
  The module defines \<^verbatim>\<open>calculate_progress\<close> twice (lines 115 and 392). Both are
  module-level \<^verbatim>\<open>def\<close>s, so the second one rebinds the name, and the only caller
  (\<^verbatim>\<open>EstadisticasTab.update_progress\<close>) looks the name up when it runs: the
  definition in effect is the one of line 392, with goals in hours converted to seconds.

  The goals and \<^verbatim>\<open>goal_seconds\<close> are integers. \<open>total_duration_seconds\<close> is the
  exact value of the number passed, an integer or a finite float. The quotient
  \<^verbatim>\<open>total_duration_seconds / goal_seconds\<close> is a float, correctly rounded; only an
  integer total can make it overflow, and that division raises \<^verbatim>\<open>OverflowError\<close>.
  The product with 100 is rounded again, and is an infinity when it overflows. For an
  unknown period the function returns the integer 0.
\<close>

definition goals_hours :: "string \<Rightarrow> int option" where
  "goals_hours p =
     (if p = ''daily'' then Some 5
      else if p = ''weekly'' then Some 25
      else if p = ''monthly'' then Some 100
      else if p = ''yearly'' then Some 1200
      else None)"

definition calculate_progress :: "string \<Rightarrow> real \<Rightarrow> py_error + pyfloat" where
  "calculate_progress period_type total_duration_seconds =
     (let goal_seconds = (case goals_hours period_type of Some g \<Rightarrow> g | None \<Rightarrow> 0) * 3600
      in if goal_seconds = 0 then Inr (Finite 0)
         else
           (let q = fl (total_duration_seconds / of_int goal_seconds)
            in if pow2 1024 \<le> \<bar>q\<bar> then Inl OverflowError
               else
                 (let r = fl (q * 100)
                  in if pow2 1024 \<le> \<bar>r\<bar> then Inr (if 0 < r then PosInf else NegInf)
                     else Inr (Finite r))))"

section \<open>Stopwatch (\<^verbatim>\<open>PracticeTimer\<close>)\<close>

text \<open>
  The timer reads the clock with \<^verbatim>\<open>time.time()\<close>; the reading is a parameter
  \<open>now\<close> of each method that takes one. Every method returns the object's new state;
  \<open>get_total_time\<close> returns its value together with the state, which it does not assign to.
  Subtracting \<^verbatim>\<open>None\<close> from a float raises \<^verbatim>\<open>TypeError\<close>.
\<close>

record PracticeTimer =
  start_time :: "real option"
  total_time :: real
  running :: bool

definition PracticeTimer_init :: PracticeTimer where
  "PracticeTimer_init = \<lparr>start_time = None, total_time = 0, running = False\<rparr>"

definition start :: "real \<Rightarrow> PracticeTimer \<Rightarrow> PracticeTimer" where
  "start now self = (if \<not> running self then self\<lparr>start_time := Some now, running := True\<rparr> else self)"

definition stop :: "real \<Rightarrow> PracticeTimer \<Rightarrow> py_error + PracticeTimer" where
  "stop now self =
     (if running self then
        (case start_time self of
           None \<Rightarrow> Inl TypeError
         | Some st \<Rightarrow> Inr (self\<lparr>total_time := total_time self + (now - st), start_time := None, running := False\<rparr>))
      else Inr self)"

definition reset :: "PracticeTimer \<Rightarrow> PracticeTimer" where
  "reset self = self\<lparr>start_time := None, total_time := 0, running := False\<rparr>"

definition get_total_time :: "real \<Rightarrow> PracticeTimer \<Rightarrow> py_error + (real \<times> PracticeTimer)" where
  "get_total_time now self =
     (if running self then
        (case start_time self of
           None \<Rightarrow> Inl TypeError
         | Some st \<Rightarrow> Inr (total_time self + (now - st), self))
      else Inr (total_time self, self))"

text \<open>
  A sequence of calls, each with the clock reading at the call; the run stops at the
  first exception.
\<close>

datatype timer_op = Start | Stop | Reset | Read

fun timer_step :: "timer_op \<times> real \<Rightarrow> PracticeTimer \<Rightarrow> py_error + PracticeTimer" where
  "timer_step (Start, now) self = Inr (start now self)"
| "timer_step (Stop, now) self = stop now self"
| "timer_step (Reset, now) self = Inr (reset self)"
| "timer_step (Read, now) self =
     (case get_total_time now self of Inl e \<Rightarrow> Inl e | Inr (v, self') \<Rightarrow> Inr self')"

fun timer_run :: "(timer_op \<times> real) list \<Rightarrow> PracticeTimer \<Rightarrow> py_error + PracticeTimer" where
  "timer_run [] self = Inr self"
| "timer_run (e # es) self =
     (case timer_step e self of Inl err \<Rightarrow> Inl err | Inr self' \<Rightarrow> timer_run es self')"

text \<open>
  The running intervals of a sequence of calls, in the words of the specification: the
  lengths of the completed intervals since the last reset, and the start of the interval
  that is still open. A start while an interval is open and a stop while none is open
  change nothing.
\<close>

fun intervals :: "real list \<times> real option \<Rightarrow> (timer_op \<times> real) list \<Rightarrow> real list \<times> real option" where
  "intervals (done, cur) [] = (done, cur)"
| "intervals (done, cur) ((Start, t) # es) =
     intervals (done, (case cur of None \<Rightarrow> Some t | Some s \<Rightarrow> Some s)) es"
| "intervals (done, cur) ((Stop, t) # es) =
     (case cur of None \<Rightarrow> intervals (done, None) es | Some s \<Rightarrow> intervals (done @ [t - s], None) es)"
| "intervals (done, cur) ((Reset, t) # es) = intervals ([], None) es"
| "intervals (done, cur) ((Read, t) # es) = intervals (done, cur) es"

definition spec_elapsed :: "real \<Rightarrow> real list \<times> real option \<Rightarrow> real" where
  "spec_elapsed now iv = sum_list (fst iv) + (case snd iv of None \<Rightarrow> 0 | Some s \<Rightarrow> now - s)"

text \<open>
  The timer object represents a pair of completed intervals and open interval when its
  accumulator is the sum of the completed ones, its mark is the open one, and its flag
  says whether there is one.
\<close>

definition timer_rel :: "real list \<times> real option \<Rightarrow> PracticeTimer \<Rightarrow> bool" where
  "timer_rel iv self =
     (total_time self = sum_list (fst iv) \<and> start_time self = snd iv \<and> running self = (snd iv \<noteq> None))"

section \<open>Countdown display (\<^verbatim>\<open>CountdownTimer.format_time\<close>)\<close>

definition format_time :: "int \<Rightarrow> string" where
  "format_time seconds =
     (let h = seconds div 3600;
          m = (seconds mod 3600) div 60;
          s = seconds mod 60
      in format_0w 2 h @ '':'' @ format_0w 2 m @ '':'' @ format_0w 2 s)"

text \<open>The number that a string of decimal digits denotes.\<close>

definition decimal_value :: "string \<Rightarrow> int" where
  "decimal_value s = foldl (\<lambda>acc c. 10 * acc + digit_val c) 0 s"

section \<open>Session store (\<^verbatim>\<open>load_sessions\<close>, \<^verbatim>\<open>save_session\<close>)\<close>

text \<open>
  The sessions file, as \<^verbatim>\<open>open\<close> and \<^verbatim>\<open>json.load\<close> see it: absent, present
  with text that is not JSON, or present with the text of a JSON value.
\<close>

datatype file_state = FileMissing | FileUndecodable | FileJson json

text \<open>The body of the loop of \<^verbatim>\<open>load_sessions\<close>: four calls of \<^verbatim>\<open>setdefault\<close>.\<close>

definition load_defaults :: "pydict \<Rightarrow> pydict" where
  "load_defaults session =
     (let s1 = setdefault session ''composer'' (JStr ''Unknown'');
          s2 = setdefault s1 ''work'' (JStr ''Unknown'');
          s3 = setdefault s2 ''movement'' (JStr ''Unknown'')
      in setdefault s3 ''notes'' (JStr ''''))"

text \<open>
  The loop runs over the elements of the loaded value. An element that is not a
  dictionary has no \<^verbatim>\<open>setdefault\<close>: \<^verbatim>\<open>AttributeError\<close>.
\<close>

fun load_loop :: "json list \<Rightarrow> py_error + json list" where
  "load_loop [] = Inr []"
| "load_loop (JObj d # rest) =
     (case load_loop rest of Inl e \<Rightarrow> Inl e | Inr rest' \<Rightarrow> Inr (JObj (load_defaults d) # rest'))"
| "load_loop (v # rest) = Inl AttributeError"

text \<open>
  Every exception is caught and answered with the empty list. Iterating a JSON object
  yields its keys and iterating a string its characters, which are strings and have no
  \<^verbatim>\<open>setdefault\<close>; when there is nothing to iterate the loaded value itself is returned.
  \<^verbatim>\<open>null\<close>, a number or a boolean cannot be iterated (\<^verbatim>\<open>TypeError\<close>).
\<close>

definition load_sessions :: "file_state \<Rightarrow> json" where
  "load_sessions f =
     (case f of
        FileMissing \<Rightarrow> JArr []
      | FileUndecodable \<Rightarrow> JArr []
      | FileJson sessions_data \<Rightarrow>
          (case sessions_data of
             JArr xs \<Rightarrow> (case load_loop xs of Inl e \<Rightarrow> JArr [] | Inr xs' \<Rightarrow> JArr xs')
           | JObj kvs \<Rightarrow> (if kvs = [] then JObj [] else JArr [])
           | JStr s \<Rightarrow> (if s = [] then JStr [] else JArr [])
           | _ \<Rightarrow> JArr []))"

text \<open>
  \<^verbatim>\<open>save_session(sessions, session)\<close> assigns to the dictionary it is given and appends
  that same object to the list, so the model has a store of dictionary objects: the list
  holds references. The outcome of opening and writing the file is a parameter. The
  function catches every exception; it returns the state it leaves and the exception it
  caught and printed, if any.
\<close>

type_synonym ref = nat

record world =
  heap :: "ref \<Rightarrow> pydict"
  sessions_list :: "ref list"
  sessions_file :: file_state

datatype io_outcome = IoOk | IoOpenFails | IoDumpFails

definition save_defaults :: "pydict \<Rightarrow> pydict" where
  "save_defaults session =
     (let s1 = dict_set session ''composer''
                 (py_or (dict_get_default session ''composer'' (JStr ''Unknown'')) (JStr ''Unknown''));
          s2 = dict_set s1 ''work''
                 (py_or (dict_get_default s1 ''work'' (JStr ''Unknown'')) (JStr ''Unknown''));
          s3 = dict_set s2 ''movement''
                 (py_or (dict_get_default s2 ''movement'' (JStr ''Unknown'')) (JStr ''Unknown''))
      in dict_set s3 ''notes'' (dict_get_default s3 ''notes'' (JStr '''')))"

definition save_session :: "io_outcome \<Rightarrow> world \<Rightarrow> ref \<Rightarrow> world \<times> py_error option" where
  "save_session io w session =
     (let d = save_defaults (heap w session);
          w1 = w\<lparr>heap := (heap w)(session := d)\<rparr>
      in case dict_item d ''date'' of
           Inl e \<Rightarrow> (w1, Some e)
         | Inr session_date_str \<Rightarrow>
             (case strptime session_date_str of
                Inl e \<Rightarrow> (w1, Some e)
              | Inr session_date \<Rightarrow>
                  (let d1 = dict_set d ''week'' (JInt (isocalendar_week session_date));
                       d2 = dict_set d1 ''month'' (JInt (month session_date));
                       d3 = dict_set d2 ''year'' (JInt (year session_date));
                       w2 = w1\<lparr>heap := (heap w1)(session := d3),
                               sessions_list := sessions_list w1 @ [session]\<rparr>
                   in case io of
                        IoOpenFails \<Rightarrow> (w2, Some OSError)
                      | IoDumpFails \<Rightarrow> (w2\<lparr>sessions_file := FileUndecodable\<rparr>, Some OSError)
                      | IoOk \<Rightarrow>
                          (w2\<lparr>sessions_file := FileJson (JArr (map (\<lambda>r. JObj (heap w2 r)) (sessions_list w2)))\<rparr>,
                           None))))"

text \<open>Whether the \<^verbatim>\<open>date\<close> field of a session is there and parses.\<close>

definition date_parses :: "pydict \<Rightarrow> bool" where
  "date_parses session =
     (case dict_get session ''date'' of
        None \<Rightarrow> False
      | Some v \<Rightarrow> (case strptime v of Inl e \<Rightarrow> False | Inr dt \<Rightarrow> True))"

section \<open>Statistics (\<^verbatim>\<open>calculate_period_stats\<close>, \<^verbatim>\<open>calculate_streak\<close>)\<close>

text \<open>
  The first loop of \<^verbatim>\<open>calculate_period_stats\<close>, which selects the sessions of the
  period. \<open>now\<close> is the date of \<^verbatim>\<open>datetime.now()\<close>. Every session is parsed, whatever
  the period type; the first session that has no date or whose date does not parse ends
  the call with its exception.
\<close>

definition in_period :: "date \<Rightarrow> string \<Rightarrow> date \<Rightarrow> bool" where
  "in_period now period_type session_date =
     (if period_type = ''daily'' then session_date = now
      else if period_type = ''weekly'' then days_between now session_date \<le> 7
      else if period_type = ''monthly'' then days_between now session_date \<le> 30
      else if period_type = ''yearly'' then days_between now session_date \<le> 365
      else False)"

fun valid_sessions :: "date \<Rightarrow> string \<Rightarrow> pydict list \<Rightarrow> py_error + pydict list" where
  "valid_sessions now period_type [] = Inr []"
| "valid_sessions now period_type (session # rest) =
     (case dict_item session ''date'' of
        Inl e \<Rightarrow> Inl e
      | Inr v \<Rightarrow>
          (case strptime v of
             Inl e \<Rightarrow> Inl e
           | Inr session_date \<Rightarrow>
               (case valid_sessions now period_type rest of
                  Inl e \<Rightarrow> Inl e
                | Inr vs \<Rightarrow> Inr (if in_period now period_type session_date then session # vs else vs))))"

text \<open>
  \<^verbatim>\<open>a + b\<close> on the values a session can hold: numbers add (a boolean counts as 0 or 1),
  strings and lists concatenate, anything else raises \<^verbatim>\<open>TypeError\<close>. A sum with a
  float is written without its rounding; the statements below are about the dates of the
  statistics and about whether the call returns, not about the value of a sum.
\<close>

fun py_add :: "json \<Rightarrow> json \<Rightarrow> py_error + json" where
  "py_add (JInt a) (JInt b) = Inr (JInt (a + b))"
| "py_add (JInt a) (JBool b) = Inr (JInt (a + (if b then 1 else 0)))"
| "py_add (JBool a) (JInt b) = Inr (JInt ((if a then 1 else 0) + b))"
| "py_add (JBool a) (JBool b) = Inr (JInt ((if a then 1 else 0) + (if b then 1 else 0)))"
| "py_add (JFloat a) (JFloat b) = Inr (JFloat (a + b))"
| "py_add (JFloat a) (JInt b) = Inr (JFloat (a + of_int b))"
| "py_add (JInt a) (JFloat b) = Inr (JFloat (of_int a + b))"
| "py_add (JFloat a) (JBool b) = Inr (JFloat (a + (if b then 1 else 0)))"
| "py_add (JBool a) (JFloat b) = Inr (JFloat ((if a then 1 else 0) + b))"
| "py_add (JStr a) (JStr b) = Inr (JStr (a @ b))"
| "py_add (JArr a) (JArr b) = Inr (JArr (a @ b))"
| "py_add a b = Inl TypeError"

text \<open>The second loop: the durations summed by date, in a dictionary in insertion order.\<close>

fun aggregate :: "(json \<times> json) list \<Rightarrow> pydict list \<Rightarrow> py_error + (json \<times> json) list" where
  "aggregate stats [] = Inr stats"
| "aggregate stats (session # rest) =
     (case dict_item session ''date'' of
        Inl e \<Rightarrow> Inl e
      | Inr date \<Rightarrow>
          (case dict_item session ''duration'' of
             Inl e \<Rightarrow> Inl e
           | Inr duration \<Rightarrow>
               (case dict_get stats date of
                  Some old \<Rightarrow>
                    (case py_add old duration of
                       Inl e \<Rightarrow> Inl e
                     | Inr v \<Rightarrow> aggregate (dict_set stats date v) rest)
                | None \<Rightarrow> aggregate (dict_set stats date duration) rest)))"

definition calculate_period_stats :: "date \<Rightarrow> pydict list \<Rightarrow> string \<Rightarrow> py_error + (json \<times> json) list" where
  "calculate_period_stats now sessions period_type =
     (if sessions = [] then Inr []
      else case valid_sessions now period_type sessions of
             Inl e \<Rightarrow> Inl e
           | Inr vs \<Rightarrow> aggregate [] vs)"

text \<open>
  \<^verbatim>\<open>list.sort(key=..., reverse=True)\<close> is stable: elements with equal keys keep their
  order. Strings compare by code point, a proper prefix before its extensions.
\<close>

definition py_sort_desc :: "('a \<Rightarrow> 'k::linorder) \<Rightarrow> 'a list \<Rightarrow> 'a list" where
  "py_sort_desc key xs = rev (sort_key key (rev xs))"

definition date_str :: "pydict \<Rightarrow> string" where
  "date_str session = (case dict_get session ''date'' of Some (JStr x) \<Rightarrow> x | _ \<Rightarrow> [])"

definition is_str :: "json option \<Rightarrow> bool" where
  "is_str v = (case v of Some (JStr x) \<Rightarrow> True | _ \<Rightarrow> False)"

text \<open>
  \<^verbatim>\<open>sessions.sort(key=lambda x: x['date'], reverse=True)\<close> sorts the list in place. The
  keys are computed first: a session without \<^verbatim>\<open>date\<close> raises \<^verbatim>\<open>KeyError\<close>. When
  some key is not a string the call of \<^verbatim>\<open>calculate_streak\<close> always ends in
  \<^verbatim>\<open>TypeError\<close>, raised by a comparison of the sort or by the \<^verbatim>\<open>strptime\<close> that
  follows it. The model gives the list after the call only when the call returns.
\<close>

definition sort_by_date :: "pydict list \<Rightarrow> py_error + pydict list" where
  "sort_by_date sessions =
     (if \<exists>s \<in> set sessions. dict_get s ''date'' = None then Inl KeyError
      else if \<exists>s \<in> set sessions. \<not> is_str (dict_get s ''date'') then Inl TypeError
      else Inr (py_sort_desc date_str sessions))"

fun streak_loop :: "date \<Rightarrow> int \<Rightarrow> pydict list \<Rightarrow> py_error + int" where
  "streak_loop previous_date streak [] = Inr streak"
| "streak_loop previous_date streak (session # rest) =
     (case dict_item session ''date'' of
        Inl e \<Rightarrow> Inl e
      | Inr v \<Rightarrow>
          (case strptime v of
             Inl e \<Rightarrow> Inl e
           | Inr current_date \<Rightarrow>
               if days_between previous_date current_date = 1
                 then streak_loop current_date (streak + 1) rest
               else if days_between previous_date current_date = 0
                 then streak_loop previous_date streak rest
               else Inr streak))"

text \<open>The result is the list as the call leaves it, and the streak.\<close>

definition calculate_streak :: "pydict list \<Rightarrow> py_error + (pydict list \<times> int)" where
  "calculate_streak sessions =
     (if sessions = [] then Inr (sessions, 0)
      else case sort_by_date sessions of
             Inl e \<Rightarrow> Inl e
           | Inr sorted_sessions \<Rightarrow>
               (case sorted_sessions of
                  [] \<Rightarrow> Inl IndexError
                | first # _ \<Rightarrow>
                    (case dict_item first ''date'' of
                       Inl e \<Rightarrow> Inl e
                     | Inr v \<Rightarrow>
                         (case strptime v of
                            Inl e \<Rightarrow> Inl e
                          | Inr previous_date \<Rightarrow>
                              (case streak_loop previous_date 0 sorted_sessions of
                                 Inl e \<Rightarrow> Inl e
                               | Inr streak \<Rightarrow> Inr (sorted_sessions, streak + 1))))))"

text \<open>The parsed date of a session, when it has one.\<close>

definition session_date :: "pydict \<Rightarrow> date option" where
  "session_date session =
     (case dict_get session ''date'' of
        None \<Rightarrow> None
      | Some v \<Rightarrow> (case strptime v of Inl e \<Rightarrow> None | Inr dt \<Rightarrow> Some dt))"

definition kept :: "date \<Rightarrow> string \<Rightarrow> pydict \<Rightarrow> bool" where
  "kept now period_type session =
     (case session_date session of None \<Rightarrow> False | Some dt \<Rightarrow> in_period now period_type dt)"

text \<open>
  Dates that \<^verbatim>\<open>date(year, month, day)\<close> accepts, the length of a year, and the
  order of dates by year, month and day.
\<close>

definition valid_date :: "date \<Rightarrow> bool" where
  "valid_date dt = (1 \<le> year dt \<and> year dt \<le> 9999 \<and> 1 \<le> month dt \<and> month dt \<le> 12
                    \<and> 1 \<le> day dt \<and> day dt \<le> days_in_month (year dt) (month dt))"

definition days_in_year :: "int \<Rightarrow> int" where
  "days_in_year y = (if is_leap y then 366 else 365)"

definition date_less :: "date \<Rightarrow> date \<Rightarrow> bool" where
  "date_less a b =
     (year a < year b \<or> (year a = year b \<and> (month a < month b \<or> (month a = month b \<and> day a < day b))))"

text \<open>
  A session whose \<^verbatim>\<open>date\<close> is a calendar date written as \<^verbatim>\<open>YYYY-MM-DD\<close>, the form
  of the data model, which is the form \<^verbatim>\<open>isoformat\<close> produces: the string parses and
  is the \<^verbatim>\<open>isoformat\<close> of its date. (\<^verbatim>\<open>strptime\<close> also accepts a month or day
  without the leading zero.)
\<close>

definition iso_date :: "pydict \<Rightarrow> bool" where
  "iso_date session =
     (case dict_get session ''date'' of
        Some (JStr x) \<Rightarrow> (case strptime_ymd x of Inl e \<Rightarrow> False | Inr dt \<Rightarrow> isoformat dt = x)
      | _ \<Rightarrow> False)"

text \<open>The day number of a session's date.\<close>

definition session_ordinal :: "pydict \<Rightarrow> int" where
  "session_ordinal session = (case session_date session of None \<Rightarrow> 0 | Some dt \<Rightarrow> toordinal dt)"

text \<open>The loop of \<^verbatim>\<open>calculate_streak\<close> on day numbers.\<close>

fun walk :: "int \<Rightarrow> int \<Rightarrow> int list \<Rightarrow> int" where
  "walk previous streak [] = streak"
| "walk previous streak (current # rest) =
     (if previous - current = 1 then walk current (streak + 1) rest
      else if previous - current = 0 then walk previous streak rest
      else streak)"

text \<open>
  The streak in the words of the specification, on the day numbers from the most recent
  backwards: same-day repeats are skipped, and the single-day advances are counted up to
  the first step that is not one day.
\<close>

definition advances :: "int list \<Rightarrow> nat" where
  "advances days =
     length (takeWhile (\<lambda>(a, b). a - b = 1) (zip (remdups_adj days) (tl (remdups_adj days))))"

text \<open>
  The days of the run of consecutive days that ends at day \<open>T\<close>, for a set \<open>D\<close> of days
  with sessions.
\<close>

definition streak_days :: "int set \<Rightarrow> int \<Rightarrow> int set" where
  "streak_days D T = {d. d \<le> T \<and> {d..T} \<subseteq> D}"

text \<open>A session whose \<^verbatim>\<open>duration\<close> is a float, as the stopwatch gives it.\<close>

definition has_float_duration :: "pydict \<Rightarrow> bool" where
  "has_float_duration session =
     (case dict_get session ''duration'' of Some (JFloat r) \<Rightarrow> True | _ \<Rightarrow> False)"

section \<open>Theorems\<close>

subsection \<open>Decimal digits and the countdown display\<close>

lemma digit_char_cases:
  assumes "d < 10"
  shows "d \<in> set [0, 1, 2, 3, 4, 5, 6, 7, 8, 9 :: nat]"
  using assms by simp arith

lemma digit_val_digit_char:
  assumes "n < 10" shows "digit_val (digit_char n) = int n"
  using digit_char_cases [OF assms] by (auto simp: digit_val_def digit_char_def)

lemma is_digit_digit_char:
  assumes "n < 10" shows "is_digit (digit_char n)"
  using digit_char_cases [OF assms] by (auto simp: is_digit_def digit_char_def)

lemma decimal_value_snoc: "decimal_value (s @ [c]) = 10 * decimal_value s + digit_val c"
  by (simp add: decimal_value_def)

lemma decimal_value_digits10: "decimal_value (digits10 n) = int n"
proof (induction n rule: digits10.induct)
  case (1 n)
  show ?case
  proof (cases "n < 10")
    case True
    then show ?thesis
      by (subst digits10.simps) (simp add: decimal_value_def digit_val_digit_char)
  next
    case False
    then have "decimal_value (digits10 n) = 10 * decimal_value (digits10 (n div 10)) + digit_val (digit_char (n mod 10))"
      by (subst digits10.simps) (simp add: decimal_value_snoc)
    also have "\<dots> = 10 * int (n div 10) + int (n mod 10)"
      using 1 False by (simp add: digit_val_digit_char)
    also have "\<dots> = int n" by presburger
    finally show ?thesis .
  qed
qed

lemma digits10_is_digit: "c \<in> set (digits10 n) \<Longrightarrow> is_digit c"
proof (induction n rule: digits10.induct)
  case (1 n)
  show ?case
  proof (cases "n < 10")
    case True
    with 1(2) show ?thesis by (subst (asm) digits10.simps) (simp add: is_digit_digit_char)
  next
    case False
    with 1 show ?thesis
      by (subst (asm) (2) digits10.simps) (auto simp: is_digit_digit_char)
  qed
qed

lemma length_digits10_small: "n < 10 \<Longrightarrow> length (digits10 n) = 1"
  by (subst digits10.simps) simp

lemma length_digits10_two: "10 \<le> n \<Longrightarrow> n < 100 \<Longrightarrow> length (digits10 n) = 2"
  by (subst digits10.simps) (simp add: length_digits10_small)

lemma length_digits10_pos: "length (digits10 n) \<ge> 1"
  by (subst digits10.simps) simp

lemma length_digits10_big: "100 \<le> n \<Longrightarrow> length (digits10 n) \<ge> 3"
proof -
  assume a: "100 \<le> n"
  then have b: "10 \<le> n div 10" by simp
  have "length (digits10 (n div 10)) \<ge> 2"
    using b length_digits10_pos [of "n div 10 div 10"] by (subst digits10.simps) simp
  then show ?thesis using a by (subst digits10.simps) simp
qed

lemma decimal_value_zeros: "foldl (\<lambda>acc c. 10 * acc + digit_val c) 0 (replicate k (CHR ''0'')) = 0"
  by (induction k) (simp_all add: digit_val_def)

lemma decimal_value_zfill: "decimal_value (zfill w s) = decimal_value s"
  by (simp add: zfill_def decimal_value_def decimal_value_zeros)

lemma is_digit_zero: "is_digit (CHR ''0'')"
  by (simp add: is_digit_def)

lemma zfill_is_digit: "(\<forall>c \<in> set s. is_digit c) \<Longrightarrow> c \<in> set (zfill w s) \<Longrightarrow> is_digit c"
  using is_digit_zero by (auto simp: zfill_def)

lemma length_zfill: "length (zfill w s) = max w (length s)"
  by (simp add: zfill_def)

lemma format_0w_nonneg: "0 \<le> n \<Longrightarrow> format_0w w n = zfill w (digits10 (nat n))"
  by (simp add: format_0w_def)

lemma length_format_02_lt100: "0 \<le> n \<Longrightarrow> n < 100 \<Longrightarrow> length (format_0w 2 n) = 2"
proof -
  assume a: "0 \<le> n" "n < 100"
  have "length (digits10 (nat n)) \<le> 2"
  proof (cases "nat n < 10")
    case True then show ?thesis by (simp add: length_digits10_small)
  next
    case False then show ?thesis using a length_digits10_two [of "nat n"] by simp
  qed
  then show ?thesis using a by (simp add: format_0w_nonneg length_zfill)
qed

lemma length_format_02_hours: "0 \<le> n \<Longrightarrow> 2 \<le> length (format_0w 2 n) \<and> (length (format_0w 2 n) = 2 \<longleftrightarrow> n < 100)"
proof -
  assume a: "0 \<le> n"
  show ?thesis
  proof (cases "n < 100")
    case True
    then show ?thesis using a length_format_02_lt100 by simp
  next
    case False
    then have "length (digits10 (nat n)) \<ge> 3" using length_digits10_big [of "nat n"] by simp
    then show ?thesis using a False by (simp add: format_0w_nonneg length_zfill)
  qed
qed

lemma decimal_value_format_0w: "0 \<le> n \<Longrightarrow> decimal_value (format_0w w n) = n"
  by (simp add: format_0w_nonneg decimal_value_zfill decimal_value_digits10)

lemma format_0w_is_digit:
  assumes "0 \<le> n" and "c \<in> set (format_0w w n)" shows "is_digit c"
proof -
  have "\<forall>c \<in> set (digits10 (nat n)). is_digit c" using digits10_is_digit by blast
  then show ?thesis using assms zfill_is_digit [of "digits10 (nat n)" c w] by (simp add: format_0w_nonneg)
qed

lemma hms_bounds:
  fixes n :: int
  assumes "0 \<le> n"
  shows "0 \<le> n div 3600" and "0 \<le> n mod 3600 div 60" and "n mod 3600 div 60 < 100"
    and "0 \<le> n mod 60" and "n mod 60 < 100" and "(n div 3600 < 100) = (n < 360000)"
proof -
  show "0 \<le> n div 3600" using assms by simp
  show "0 \<le> n mod 3600 div 60" by simp
  have "n mod 3600 < 3600" by simp
  then have "n mod 3600 div 60 < 60" by (simp add: zdiv_mono1 div_less_iff_less_mult)
  then show "n mod 3600 div 60 < 100" by simp
  show "0 \<le> n mod 60" by simp
  have "n mod 60 < 60" by simp
  then show "n mod 60 < 100" by simp
  have e: "n = 3600 * (n div 3600) + n mod 3600" by simp
  have b: "0 \<le> n mod 3600" "n mod 3600 < 3600" by simp_all
  obtain q r where q: "q = n div 3600" and r: "r = n mod 3600" by simp
  from e b have "n = 3600 * q + r" "0 \<le> r" "r < 3600" unfolding q r by simp_all
  then have "(q < 100) = (n < 360000)" by linarith
  then show "(n div 3600 < 100) = (n < 360000)" unfolding q .
qed

text \<open>
  C5, as the code has it. \<^verbatim>\<open>CountdownTimer.format_time\<close> renders a non-negative
  number of seconds as \<^verbatim>\<open>HH:MM:SS\<close>: hours, minutes and seconds are each
  zero-padded to two digits; the hours field is exactly two digits below 100 hours and
  wider from 100 hours on; the three fields read back as the hours, minutes and seconds.
  One second is rendered \<^verbatim>\<open>00:00:01\<close>.
\<close>

theorem format_time_fields:
  "(0 \<le> n \<longrightarrow>
      (\<exists>hs ms ss. format_time n = hs @ '':'' @ ms @ '':'' @ ss
         \<and> 2 \<le> length hs \<and> (length hs = 2 \<longleftrightarrow> n < 360000) \<and> length ms = 2 \<and> length ss = 2
         \<and> (\<forall>c \<in> set (hs @ ms @ ss). is_digit c)
         \<and> decimal_value hs = n div 3600
         \<and> decimal_value ms = n mod 3600 div 60
         \<and> decimal_value ss = n mod 60))
   \<and> format_time 1 = ''00:00:01''"
proof (intro conjI impI)
  assume n: "0 \<le> n"
  let ?h = "n div 3600" and ?m = "n mod 3600 div 60" and ?s = "n mod 60"
  have h: "0 \<le> ?h" and m: "0 \<le> ?m" "?m < 100" and s: "0 \<le> ?s" "?s < 100"
    and hl: "(?h < 100) = (n < 360000)"
    using hms_bounds [OF n] by blast+
  show "\<exists>hs ms ss. format_time n = hs @ '':'' @ ms @ '':'' @ ss
         \<and> 2 \<le> length hs \<and> (length hs = 2 \<longleftrightarrow> n < 360000) \<and> length ms = 2 \<and> length ss = 2
         \<and> (\<forall>c \<in> set (hs @ ms @ ss). is_digit c)
         \<and> decimal_value hs = n div 3600
         \<and> decimal_value ms = n mod 3600 div 60
         \<and> decimal_value ss = n mod 60"
  proof (intro exI conjI)
    show "format_time n = format_0w 2 ?h @ '':'' @ format_0w 2 ?m @ '':'' @ format_0w 2 ?s"
      by (simp add: format_time_def)
    show "2 \<le> length (format_0w 2 ?h)" using length_format_02_hours [OF h] by simp
    show "(length (format_0w 2 ?h) = 2) = (n < 360000)" using length_format_02_hours [OF h] hl by simp
    show "length (format_0w 2 ?m) = 2" using m by (rule length_format_02_lt100)
    show "length (format_0w 2 ?s) = 2" using s by (rule length_format_02_lt100)
    show "\<forall>c \<in> set (format_0w 2 ?h @ format_0w 2 ?m @ format_0w 2 ?s). is_digit c"
      using format_0w_is_digit [OF h] format_0w_is_digit [OF m(1)] format_0w_is_digit [OF s(1)] by auto
    show "decimal_value (format_0w 2 ?h) = ?h" using h by (rule decimal_value_format_0w)
    show "decimal_value (format_0w 2 ?m) = ?m" using m(1) by (rule decimal_value_format_0w)
    show "decimal_value (format_0w 2 ?s) = ?s" using s(1) by (rule decimal_value_format_0w)
  qed
next
  show "format_time 1 = ''00:00:01''"
    by (simp add: format_time_def format_0w_def zfill_def digit_char_def digits10.simps)
qed

theorem format_time_fields_witness:
  "(0::int) \<le> 3725 \<and>
   (\<exists>hs ms ss. format_time 3725 = hs @ '':'' @ ms @ '':'' @ ss
      \<and> 2 \<le> length hs \<and> (length hs = 2 \<longleftrightarrow> (3725::int) < 360000) \<and> length ms = 2 \<and> length ss = 2
      \<and> (\<forall>c \<in> set (hs @ ms @ ss). is_digit c)
      \<and> decimal_value hs = 3725 div 3600
      \<and> decimal_value ms = 3725 mod 3600 div 60
      \<and> decimal_value ss = 3725 mod 60)
   \<and> format_time 3725 = ''01:02:05''"
proof -
  have a: "(0::int) \<le> 3725" by simp
  have b: "\<exists>hs ms ss. format_time 3725 = hs @ '':'' @ ms @ '':'' @ ss
      \<and> 2 \<le> length hs \<and> (length hs = 2 \<longleftrightarrow> (3725::int) < 360000) \<and> length ms = 2 \<and> length ss = 2
      \<and> (\<forall>c \<in> set (hs @ ms @ ss). is_digit c)
      \<and> decimal_value hs = 3725 div 3600
      \<and> decimal_value ms = 3725 mod 3600 div 60
      \<and> decimal_value ss = 3725 mod 60"
    using format_time_fields [of 3725, THEN conjunct1] a by (rule mp)
  have c: "format_time 3725 = ''01:02:05''"
    by (simp add: format_time_def format_0w_def zfill_def digit_char_def digits10.simps)
  from a b c show ?thesis by (intro conjI)
qed

text \<open>
  C5 as stated has the hours without padding, so that one second would be
  \<^verbatim>\<open>0:00:01\<close>; the format \<^verbatim>\<open>{h:02}\<close> pads the hours as well.
\<close>

theorem format_time_one_counterexample:
  "format_time 1 = ''00:00:01'' \<and> format_time 1 \<noteq> ''0:00:01''"
  by (simp add: format_time_def format_0w_def zfill_def digit_char_def digits10.simps)

subsection \<open>Progress bar\<close>

lemma filled_range:
  assumes "0 \<le> p" "p \<le> 100" "0 \<le> w"
  shows "0 \<le> \<lfloor>p * real_of_int w / 100\<rfloor>" and "\<lfloor>p * real_of_int w / 100\<rfloor> \<le> w"
proof -
  have "0 \<le> p * real_of_int w / 100" using assms by simp
  then show "0 \<le> \<lfloor>p * real_of_int w / 100\<rfloor>" by simp
  have "p * real_of_int w \<le> 100 * real_of_int w" using assms by (simp add: mult_right_mono)
  then have "p * real_of_int w / 100 \<le> real_of_int w" by simp
  then show "\<lfloor>p * real_of_int w / 100\<rfloor> \<le> w" by (simp add: floor_le_iff)
qed

lemma str_repeat_single: "str_repeat [c] n = replicate (nat n) c"
  by (induction "nat n" arbitrary: n) (simp_all add: str_repeat_def replicate_append_same flip: replicate_Suc)

lemma round_half_even_near: "\<bar>r - real_of_int (round_half_even r)\<bar> \<le> 1 / 2"
  by (auto simp: round_half_even_def Let_def abs_le_iff)

lemma round_half_even_nonneg: "0 \<le> r \<Longrightarrow> 0 \<le> round_half_even r"
  by (auto simp: round_half_even_def Let_def)

lemma bar_cells_replicate:
  "bar_cells p w = replicate (nat (py_int (p * of_int w / 100))) (CHR ''#'')
                   @ replicate (nat (w - py_int (p * of_int w / 100))) (CHR ''.'')"
  by (simp add: bar_cells_def Let_def str_repeat_single)

lemma format_1f_nonneg:
  assumes "0 \<le> p"
  shows "\<exists>t. format_1f p = digits10 (t div 10) @ ''.'' @ [digit_char (t mod 10)] \<and> \<bar>10 * p - real t\<bar> \<le> 1 / 2"
proof -
  let ?t = "nat (round_half_even (\<bar>p\<bar> * 10))"
  have nn: "0 \<le> round_half_even (\<bar>p\<bar> * 10)" using assms by (simp add: round_half_even_nonneg)
  have "digits10 (?t mod 10) = [digit_char (?t mod 10)]" by (subst digits10.simps) simp
  then have a: "format_1f p = digits10 (?t div 10) @ ''.'' @ [digit_char (?t mod 10)]"
    using assms by (simp add: format_1f_def Let_def)
  have "real ?t = real_of_int (round_half_even (\<bar>p\<bar> * 10))" using nn by simp
  then have b: "\<bar>10 * p - real ?t\<bar> \<le> 1 / 2"
    using round_half_even_near [of "\<bar>p\<bar> * 10"] assms nn by (simp add: mult.commute)
  from a b show ?thesis by blast
qed

lemma generate_progress_bar_50: "generate_progress_bar 50 20 = ''[##########..........] 50.0%''"
  by code_simp

text \<open>
  C6, as the code has it. \<^verbatim>\<open>generate_progress_bar\<close> does not clamp. The filled
  count is \<open>int(percent * width / 100)\<close>. For \<open>0 \<le> percent \<le> 100\<close> it is the floor,
  it lies in \<open>[0, width]\<close>, and the bar has exactly \<open>width\<close> cells. When the floor
  exceeds \<open>width\<close> the bar consists of that many filled cells, more than \<open>width\<close>, and
  no empty cell. The text after the bar is the percentage itself to one decimal.
  \<^verbatim>\<open>generate_progress_bar(50, 20)\<close> has ten filled cells, ten empty ones and
  \<^verbatim>\<open>50.0%\<close>.
\<close>

theorem generate_progress_bar_cells:
  "(0 \<le> p \<and> p \<le> 100 \<and> 0 \<le> w \<longrightarrow>
       py_int (p * of_int w / 100) = \<lfloor>p * of_int w / 100\<rfloor>
     \<and> 0 \<le> py_int (p * of_int w / 100) \<and> py_int (p * of_int w / 100) \<le> w
     \<and> bar_cells p w = replicate (nat \<lfloor>p * of_int w / 100\<rfloor>) (CHR ''#'')
                        @ replicate (nat (w - \<lfloor>p * of_int w / 100\<rfloor>)) (CHR ''.'')
     \<and> length (bar_cells p w) = nat w)
   \<and> (0 \<le> w \<and> w < \<lfloor>p * of_int w / 100\<rfloor> \<longrightarrow>
       bar_cells p w = replicate (nat \<lfloor>p * of_int w / 100\<rfloor>) (CHR ''#'')
     \<and> nat w < length (bar_cells p w))
   \<and> generate_progress_bar p w = ''['' @ bar_cells p w @ ''] '' @ format_1f p @ ''%''
   \<and> (0 \<le> p \<longrightarrow>
        (\<exists>t. format_1f p = digits10 (t div 10) @ ''.'' @ [digit_char (t mod 10)]
             \<and> \<bar>10 * p - real t\<bar> \<le> 1 / 2))
   \<and> generate_progress_bar 50 20 = ''[##########..........] 50.0%''"
proof (intro conjI impI)
  assume a: "0 \<le> p \<and> p \<le> 100 \<and> 0 \<le> w"
  then have nn: "0 \<le> p * real_of_int w / 100" by simp
  then show e: "py_int (p * of_int w / 100) = \<lfloor>p * of_int w / 100\<rfloor>" by (simp add: py_int_def)
  show l: "0 \<le> py_int (p * of_int w / 100)" using a filled_range(1) [of p w] e by simp
  show u: "py_int (p * of_int w / 100) \<le> w" using a filled_range(2) [of p w] e by simp
  show "bar_cells p w = replicate (nat \<lfloor>p * of_int w / 100\<rfloor>) (CHR ''#'')
                        @ replicate (nat (w - \<lfloor>p * of_int w / 100\<rfloor>)) (CHR ''.'')"
    using bar_cells_replicate [of p w] e by simp
  show "length (bar_cells p w) = nat w"
    using l u by (simp add: bar_cells_replicate)
next
  assume b: "0 \<le> w \<and> w < \<lfloor>p * of_int w / 100\<rfloor>"
  obtain F where F: "F = \<lfloor>p * of_int w / 100\<rfloor>" by simp
  from b have b1: "0 \<le> w" and b2: "w < F" unfolding F by blast+
  from b1 b2 have "0 < F" by (rule le_less_trans)
  then have "1 \<le> p * of_int w / 100" unfolding F by (simp only: zero_less_floor)
  then have "0 \<le> p * of_int w / 100" by linarith
  then have e: "py_int (p * of_int w / 100) = F" unfolding F by (simp add: py_int_def)
  have c: "bar_cells p w = replicate (nat F) (CHR ''#'') @ replicate (nat (w - F)) (CHR ''.'')"
    using bar_cells_replicate [of p w] unfolding e .
  have z: "nat (w - F) = 0" using b2 by simp
  from c z show "bar_cells p w = replicate (nat \<lfloor>p * of_int w / 100\<rfloor>) (CHR ''#'')"
    unfolding F by simp
  have "nat w < nat F" using b1 b2 by simp
  then show "nat w < length (bar_cells p w)"
    unfolding c by simp
next
  show "generate_progress_bar p w = ''['' @ bar_cells p w @ ''] '' @ format_1f p @ ''%''"
    by (simp add: generate_progress_bar_def)
next
  assume "0 \<le> p"
  then show "\<exists>t. format_1f p = digits10 (t div 10) @ ''.'' @ [digit_char (t mod 10)]
             \<and> \<bar>10 * p - real t\<bar> \<le> 1 / 2" by (rule format_1f_nonneg)
next
  show "generate_progress_bar 50 20 = ''[##########..........] 50.0%''" by (rule generate_progress_bar_50)
qed

theorem generate_progress_bar_cells_witness:
  "((0::real) \<le> 50 \<and> (50::real) \<le> 100 \<and> (0::int) \<le> 20)
   \<and> length (bar_cells 50 20) = nat 20
   \<and> ((0::int) \<le> 20 \<and> (20::int) < \<lfloor>150 * of_int 20 / (100::real)\<rfloor>)
   \<and> nat 20 < length (bar_cells 150 20)
   \<and> (\<exists>t. format_1f 50 = digits10 (t div 10) @ ''.'' @ [digit_char (t mod 10)]
             \<and> \<bar>10 * 50 - real t\<bar> \<le> 1 / 2)"
proof -
  note A = generate_progress_bar_cells [of 50 20]
  note B = generate_progress_bar_cells [of 150 20]
  have h1: "(0::real) \<le> 50 \<and> (50::real) \<le> 100 \<and> (0::int) \<le> 20" by simp
  have h2: "(0::int) \<le> 20 \<and> (20::int) < \<lfloor>150 * of_int 20 / (100::real)\<rfloor>" by simp
  have h3: "(0::real) \<le> 50" by simp
  from A [THEN conjunct1, THEN mp, OF h1] have c1: "length (bar_cells 50 20) = nat 20" by (elim conjE)
  from B [THEN conjunct2, THEN conjunct1, THEN mp, OF h2]
  have c2: "nat 20 < length (bar_cells 150 20)" by (elim conjE)
  note c3 = A [THEN conjunct2, THEN conjunct2, THEN conjunct2, THEN conjunct1, THEN mp, OF h3]
  show ?thesis by (rule conjI [OF h1 conjI [OF c1 conjI [OF h2 conjI [OF c2 c3]]]])
qed

text \<open>
  C6 as stated has the filled count clamped to \<open>[0, width]\<close>, so that the bar always has
  \<open>width\<close> cells. At 150 percent and width 20 the bar has 30 cells.
\<close>

theorem generate_progress_bar_counterexample:
  "generate_progress_bar 150 20 = ''[##############################] 150.0%''
   \<and> length (bar_cells 150 20) = 30
   \<and> length (bar_cells 150 20) \<noteq> nat 20"
proof (intro conjI)
  show "generate_progress_bar 150 20 = ''[##############################] 150.0%''"
    by code_simp
  show l: "length (bar_cells 150 20) = 30"
    by (simp add: bar_cells_replicate py_int_def)
  show "length (bar_cells 150 20) \<noteq> nat 20" unfolding l by simp
qed

subsection \<open>Goal progress\<close>

lemma bit_length_bounds: "0 < n \<Longrightarrow> 2 ^ (bit_length n - 1) \<le> n \<and> n < 2 ^ bit_length n"
proof (induction n rule: bit_length.induct)
  case (1 n)
  show ?case
  proof (cases "n div 2 = 0")
    case True
    with 1(2) have n: "n = Suc 0" by auto
    have "bit_length (Suc 0) = Suc 0"
      by (simp add: bit_length.simps [of "Suc 0"] bit_length.simps [of 0])
    then show ?thesis unfolding n by simp
  next
    case False
    then have p: "0 < n div 2" by simp
    from 1(1) [OF _ p] 1(2) have ih: "2 ^ (bit_length (n div 2) - 1) \<le> n div 2" "n div 2 < 2 ^ bit_length (n div 2)"
      by auto
    have b: "bit_length n = Suc (bit_length (n div 2))" using 1(2) by (subst bit_length.simps) simp
    have pos: "0 < bit_length (n div 2)" using p by (subst bit_length.simps) simp
    then have "(2::nat) ^ bit_length (n div 2) = 2 * 2 ^ (bit_length (n div 2) - 1)"
      by (cases "bit_length (n div 2)") simp_all
    with ih have "2 ^ bit_length (n div 2) \<le> n" by linarith
    moreover from ih(2) have "n < 2 * 2 ^ bit_length (n div 2)" by linarith
    ultimately show ?thesis unfolding b by simp
  qed
qed

lemma pow2_powr: "pow2 k = 2 powr (real_of_int k)"
  by (simp add: pow2_def powr_int)

lemma pow2_pos: "0 < pow2 k"
  by (simp add: pow2_powr)

lemma pow2_add: "pow2 (a + b) = pow2 a * pow2 b"
  by (simp add: pow2_powr powr_add)

lemma pow2_mono: "a \<le> b \<Longrightarrow> pow2 a \<le> pow2 b"
  by (simp add: pow2_powr)

lemma pow2_less_cancel: "pow2 a < pow2 b \<Longrightarrow> a < b"
  by (simp add: pow2_powr)

lemma pow2_nat: "pow2 (int n) = 2 ^ n"
  by (simp add: pow2_def)

lemma pow2_neg_nat: "pow2 (- int n) = 1 / 2 ^ n"
  by (simp add: pow2_def)

lemma real_pow_le: "2 ^ b \<le> (n::nat) \<Longrightarrow> (2::real) ^ b \<le> real n"
  using of_nat_mono [of "2 ^ b" n, where 'a = real] by simp

lemma real_succ_le_pow: "(n::nat) < 2 ^ b \<Longrightarrow> real n + 1 \<le> 2 ^ b"
  using of_nat_mono [of "Suc n" "2 ^ b", where 'a = real] by simp

lemma float_exponent_bounds:
  assumes "x \<noteq> 0"
  shows "pow2 (float_exponent x) \<le> \<bar>x\<bar>" and "\<bar>x\<bar> < pow2 (float_exponent x + 1)"
proof -
  have "pow2 (float_exponent x) \<le> \<bar>x\<bar> \<and> \<bar>x\<bar> < pow2 (float_exponent x + 1)"
  proof (cases "1 \<le> \<bar>x\<bar>")
    case True
    define n where "n = nat \<lfloor>\<bar>x\<bar>\<rfloor>"
    define b where "b = bit_length n"
    from True have "1 \<le> \<lfloor>\<bar>x\<bar>\<rfloor>" by simp
    then have n: "0 < n" and nx: "real n \<le> \<bar>x\<bar>" and xn: "\<bar>x\<bar> < real n + 1"
      unfolding n_def by (simp_all add: of_nat_nat) linarith?
    from bit_length_bounds [OF n] have lo: "2 ^ (b - 1) \<le> n" and hi: "n < 2 ^ b" unfolding b_def by simp_all
    from hi have b: "0 < b" using n by (cases b) simp_all
    have fe: "float_exponent x = int (b - 1)" using True b
      by (simp add: float_exponent_def n_def b_def of_nat_diff)
    have fe1: "float_exponent x + 1 = int b" using fe b by simp
    from lo have "(2::real) ^ (b - 1) \<le> real n" by (rule real_pow_le)
    from this nx have "(2::real) ^ (b - 1) \<le> \<bar>x\<bar>" by (rule order_trans)
    then have l: "pow2 (float_exponent x) \<le> \<bar>x\<bar>" unfolding fe pow2_nat .
    from hi have "real n + 1 \<le> 2 ^ b" by (rule real_succ_le_pow)
    with xn have "\<bar>x\<bar> < 2 ^ b" by (rule less_le_trans)
    then have "\<bar>x\<bar> < pow2 (float_exponent x + 1)" unfolding fe1 pow2_nat .
    with l show ?thesis by (rule conjI)
  next
    case False
    define y where "y = 1 / \<bar>x\<bar>"
    define n where "n = nat (\<lceil>y\<rceil> - 1)"
    define k where "k = bit_length n"
    from False assms have x: "0 < \<bar>x\<bar>" "\<bar>x\<bar> < 1" by simp_all
    then have y: "1 < y" unfolding y_def by simp
    then have "1 < \<lceil>y\<rceil>" by (simp add: less_ceiling_iff)
    then have "2 \<le> \<lceil>y\<rceil>" by simp
    then have n: "0 < n" and ny: "real n < y" and yn: "y \<le> real n + 1"
      unfolding n_def by (simp_all add: of_nat_nat) linarith+
    from bit_length_bounds [OF n] have lo: "2 ^ (k - 1) \<le> n" and hi: "n < 2 ^ k" unfolding k_def by simp_all
    from hi have k: "0 < k" using n by (cases k) simp_all
    have fe: "float_exponent x = - int k" using False
      by (simp add: float_exponent_def n_def k_def y_def)
    have fe1: "float_exponent x + 1 = - int (k - 1)" using fe k by simp
    from hi have "real n + 1 \<le> 2 ^ k" by (rule real_succ_le_pow)
    with yn have "y \<le> 2 ^ k" by (rule order_trans)
    then have "1 / \<bar>x\<bar> \<le> 2 ^ k" unfolding y_def .
    then have "1 \<le> 2 ^ k * \<bar>x\<bar>" using x(1) by (simp add: divide_le_eq)
    then have "1 / 2 ^ k \<le> \<bar>x\<bar>" by (simp add: divide_le_eq mult.commute)
    then have l: "pow2 (float_exponent x) \<le> \<bar>x\<bar>" unfolding fe pow2_neg_nat .
    from lo have "(2::real) ^ (k - 1) \<le> real n" by (rule real_pow_le)
    from this ny have "2 ^ (k - 1) < y" by (rule le_less_trans)
    then have "2 ^ (k - 1) < 1 / \<bar>x\<bar>" unfolding y_def .
    then have "2 ^ (k - 1) * \<bar>x\<bar> < 1" using x(1) by (simp add: less_divide_eq)
    then have "\<bar>x\<bar> < 1 / 2 ^ (k - 1)" by (simp add: less_divide_eq mult.commute)
    then have "\<bar>x\<bar> < pow2 (float_exponent x + 1)" unfolding fe1 pow2_neg_nat .
    with l show ?thesis by (rule conjI)
  qed
  then show "pow2 (float_exponent x) \<le> \<bar>x\<bar>" and "\<bar>x\<bar> < pow2 (float_exponent x + 1)" by simp_all
qed

lemma float_exponent_ge:
  assumes "pow2 k \<le> \<bar>x\<bar>"
  shows "k \<le> float_exponent x"
proof -
  from assms have "x \<noteq> 0" using pow2_pos [of k] by auto
  then have "\<bar>x\<bar> < pow2 (float_exponent x + 1)" by (rule float_exponent_bounds)
  with assms have "pow2 k < pow2 (float_exponent x + 1)" by simp
  then have "k < float_exponent x + 1" by (rule pow2_less_cancel)
  then show ?thesis by simp
qed

lemma fl_error:
  assumes "pow2 (- 1022) \<le> \<bar>x\<bar>"
  shows "\<bar>fl x - x\<bar> \<le> \<bar>x\<bar> * pow2 (- 53)"
proof -
  from assms have nz: "x \<noteq> 0" using pow2_pos [of "- 1022"] by auto
  define e where "e = float_exponent x"
  define u where "u = pow2 (e - 52)"
  have ge: "- 1022 \<le> e" unfolding e_def using assms by (rule float_exponent_ge)
  have u: "0 < u" unfolding u_def by (rule pow2_pos)
  have f: "fl x = of_int (round_half_even (x / u)) * u"
    using nz ge by (simp add: fl_def Let_def e_def u_def max_def)
  have "\<bar>fl x - x\<bar> = \<bar>of_int (round_half_even (x / u)) - x / u\<bar> * u"
  proof -
    have "fl x - x = (of_int (round_half_even (x / u)) - x / u) * u" using u f by (simp add: algebra_simps)
    then show ?thesis using u by (simp add: abs_mult)
  qed
  also have "\<dots> \<le> 1 / 2 * u"
    using round_half_even_near [of "x / u"] u by (intro mult_right_mono) (simp_all add: abs_minus_commute)
  also have "\<dots> = pow2 e * pow2 (- 53)"
  proof -
    have "pow2 (e - 52) = pow2 (e + - 53 + 1)" by simp
    also have "\<dots> = pow2 e * pow2 (- 53) * pow2 1" by (simp only: pow2_add)
    finally show ?thesis unfolding u_def by (simp add: pow2_def)
  qed
  also have "\<dots> \<le> \<bar>x\<bar> * pow2 (- 53)"
    using float_exponent_bounds(1) [OF nz] pow2_pos [of "- 53"] unfolding e_def by (intro mult_right_mono) simp_all
  finally show ?thesis .
qed

lemma pow2_0: "pow2 0 = 1" by (simp add: pow2_def)

lemma pow2_le_one: "k \<le> 0 \<Longrightarrow> pow2 k \<le> 1"
  using pow2_mono [of k 0] by (simp add: pow2_0)

lemma pow2_less: "a < b \<Longrightarrow> pow2 a < pow2 b"
  by (simp add: pow2_powr)

lemma progress_in_range:
  fixes g :: int and t :: real
  assumes g: "1 \<le> g" "real_of_int g \<le> pow2 23"
    and t: "pow2 (- 900) \<le> \<bar>t\<bar>" "\<bar>t\<bar> \<le> pow2 900"
  shows "\<bar>fl (t / of_int g)\<bar> < pow2 1024"
    and "\<bar>fl (fl (t / of_int g) * 100)\<bar> < pow2 1024"
    and "\<bar>fl (fl (t / of_int g) * 100) - 100 * t / of_int g\<bar> \<le> \<bar>100 * t / of_int g\<bar> * pow2 (- 51)"
proof -
  define y where "y = t / of_int g"
  define q where "q = fl y"
  define r where "r = fl (q * 100)"
  define p where "p = pow2 (- 53)"
  have gpos: "0 < real_of_int g" and g1: "1 \<le> real_of_int g" using g(1) by simp_all
  have p: "0 < p" "p \<le> 1 / 2"
  proof -
    show "0 < p" unfolding p_def by (rule pow2_pos)
    have "pow2 (- 53) \<le> pow2 (- 1)" by (rule pow2_mono) simp
    then show "p \<le> 1 / 2" unfolding p_def by (simp add: pow2_def)
  qed
  have ay: "\<bar>y\<bar> = \<bar>t\<bar> / real_of_int g" unfolding y_def using gpos by simp
  have ylo: "pow2 (- 923) \<le> \<bar>y\<bar>"
  proof -
    have "pow2 (- 923) = pow2 (- 900) / pow2 23"
      using pow2_add [of "- 923" 23] pow2_pos [of 23] by (simp add: field_simps)
    also have "\<dots> \<le> \<bar>t\<bar> / pow2 23" using t(1) pow2_pos [of 23] by (simp add: divide_right_mono)
    also have "\<dots> \<le> \<bar>t\<bar> / real_of_int g" using g(2) gpos by (intro divide_left_mono) simp_all
    finally show ?thesis unfolding ay .
  qed
  have yhi: "\<bar>y\<bar> \<le> pow2 900"
  proof -
    have "\<bar>t\<bar> / real_of_int g \<le> \<bar>t\<bar> / 1" using g1 by (intro divide_left_mono) simp_all
    then show ?thesis unfolding ay using t(2) by simp
  qed
  have ynorm: "pow2 (- 1022) \<le> \<bar>y\<bar>"
    using pow2_mono [of "- 1022" "- 923"] ylo by simp
  have eq: "\<bar>q - y\<bar> \<le> \<bar>y\<bar> * p" unfolding q_def p_def using ynorm by (rule fl_error)
  have qhi: "\<bar>q\<bar> \<le> 2 * \<bar>y\<bar>"
  proof -
    have "\<bar>y\<bar> * p \<le> \<bar>y\<bar> * 1" using p by (intro mult_left_mono) simp_all
    with eq show ?thesis by linarith
  qed
  have qlo: "\<bar>y\<bar> / 2 \<le> \<bar>q\<bar>"
  proof -
    have "\<bar>y\<bar> * p \<le> \<bar>y\<bar> * (1 / 2)" using p by (intro mult_left_mono) simp_all
    with eq show ?thesis by linarith
  qed
  have q1024: "\<bar>q\<bar> < pow2 1024"
  proof -
    have "2 * \<bar>y\<bar> \<le> 2 * pow2 900" using yhi by simp
    also have "\<dots> = pow2 901" using pow2_add [of 1 900] by (simp add: pow2_def)
    also have "\<dots> < pow2 1024" by (rule pow2_less) simp
    finally show ?thesis using qhi by linarith
  qed
  have q100norm: "pow2 (- 1022) \<le> \<bar>q * 100\<bar>"
  proof -
    have "pow2 (- 1022) \<le> pow2 (- 924)" by (rule pow2_mono) simp
    also have "\<dots> = pow2 (- 923) / 2" using pow2_add [of "- 924" 1] by (simp add: pow2_def)
    also have "\<dots> \<le> \<bar>y\<bar> / 2" using ylo by simp
    also have "\<dots> \<le> \<bar>q\<bar>" by (rule qlo)
    also have "\<dots> \<le> \<bar>q * 100\<bar>" by (simp add: abs_mult)
    finally show ?thesis .
  qed
  have er: "\<bar>r - q * 100\<bar> \<le> \<bar>q * 100\<bar> * p" unfolding r_def p_def using q100norm by (rule fl_error)
  have a100: "\<bar>q * 100\<bar> = 100 * \<bar>q\<bar>" by (simp add: abs_mult)
  have rhi: "\<bar>r\<bar> \<le> 400 * \<bar>y\<bar>"
  proof -
    have "\<bar>q * 100\<bar> * p \<le> \<bar>q * 100\<bar> * 1" using p by (intro mult_left_mono) simp_all
    with er have "\<bar>r\<bar> \<le> 2 * \<bar>q * 100\<bar>" by linarith
    with a100 qhi show ?thesis by linarith
  qed
  have r1024: "\<bar>r\<bar> < pow2 1024"
  proof -
    have "400 * \<bar>y\<bar> \<le> 512 * pow2 900" using yhi by linarith
    also have "\<dots> = pow2 909" using pow2_add [of 9 900] by (simp add: pow2_def)
    also have "\<dots> < pow2 1024" by (rule pow2_less) simp
    finally show ?thesis using rhi by linarith
  qed
  have tot: "\<bar>r - 100 * y\<bar> \<le> \<bar>100 * y\<bar> * pow2 (- 51)"
  proof -
    have p4: "pow2 (- 51) = 4 * p" unfolding p_def using pow2_add [of 2 "- 53"] by (simp add: pow2_def)
    have "\<bar>q * 100\<bar> * p \<le> (200 * \<bar>y\<bar>) * p"
      using qhi a100 p(1) by (intro mult_right_mono) simp_all
    with er have e1: "\<bar>r - q * 100\<bar> \<le> 200 * (\<bar>y\<bar> * p)" by simp
    have "r - 100 * y = (r - q * 100) + 100 * (q - y)" by (simp add: algebra_simps)
    then have "\<bar>r - 100 * y\<bar> \<le> \<bar>r - q * 100\<bar> + \<bar>100 * (q - y)\<bar>"
      using abs_triangle_ineq [of "r - q * 100" "100 * (q - y)"] by simp
    moreover have "\<bar>100 * (q - y)\<bar> = 100 * \<bar>q - y\<bar>"
      using abs_mult [of 100 "q - y"] by (simp only: abs_numeral)
    ultimately have "\<bar>r - 100 * y\<bar> \<le> \<bar>r - q * 100\<bar> + 100 * \<bar>q - y\<bar>" by simp
    with e1 eq have "\<bar>r - 100 * y\<bar> \<le> 300 * (\<bar>y\<bar> * p)" by linarith
    also have "\<dots> \<le> 400 * (\<bar>y\<bar> * p)" using p(1) by (simp add: mult_nonneg_nonneg)
    also have "\<dots> = \<bar>100 * y\<bar> * pow2 (- 51)" unfolding p4 by (simp add: abs_mult)
    finally show ?thesis .
  qed
  show "\<bar>fl (t / of_int g)\<bar> < pow2 1024" using q1024 unfolding q_def y_def .
  show "\<bar>fl (fl (t / of_int g) * 100)\<bar> < pow2 1024" using r1024 unfolding r_def q_def y_def .
  show "\<bar>fl (fl (t / of_int g) * 100) - 100 * t / of_int g\<bar> \<le> \<bar>100 * t / of_int g\<bar> * pow2 (- 51)"
    using tot unfolding r_def q_def y_def by simp
qed

lemma goals_hours_range:
  assumes "goals_hours p = Some h"
  shows "1 \<le> h * 3600" and "real_of_int (h * 3600) \<le> pow2 23"
proof -
  from assms have h: "h = 5 \<or> h = 25 \<or> h = 100 \<or> h = 1200"
    by (auto simp: goals_hours_def split: if_splits)
  then show "1 \<le> h * 3600" by auto
  have "pow2 23 = 8388608" by (simp add: pow2_def)
  with h show "real_of_int (h * 3600) \<le> pow2 23" by auto
qed

lemma calculate_progress_known:
  assumes h: "goals_hours p = Some h" and t: "pow2 (- 900) \<le> \<bar>t\<bar>" "\<bar>t\<bar> \<le> pow2 900"
  shows "calculate_progress p t = Inr (Finite (fl (fl (t / of_int (h * 3600)) * 100)))"
    and "\<bar>fl (fl (t / of_int (h * 3600)) * 100) - 100 * t / of_int (h * 3600)\<bar>
           \<le> \<bar>100 * t / of_int (h * 3600)\<bar> * pow2 (- 51)"
proof -
  note g = goals_hours_range [OF h]
  note r = progress_in_range [OF g t]
  from g(1) have nz: "h * 3600 \<noteq> 0" by linarith
  from r(1) have q: "\<not> pow2 1024 \<le> \<bar>fl (t / of_int (h * 3600))\<bar>" by simp
  from r(2) have p: "\<not> pow2 1024 \<le> \<bar>fl (fl (t / of_int (h * 3600)) * 100)\<bar>" by simp
  show "calculate_progress p t = Inr (Finite (fl (fl (t / of_int (h * 3600)) * 100)))"
    unfolding calculate_progress_def Let_def using h nz q p by simp
  show "\<bar>fl (fl (t / of_int (h * 3600)) * 100) - 100 * t / of_int (h * 3600)\<bar>
           \<le> \<bar>100 * t / of_int (h * 3600)\<bar> * pow2 (- 51)"
    by (rule r(3))
qed

lemma fl_zero: "fl 0 = 0"
  by (simp add: fl_def)

lemma calculate_progress_zero: "calculate_progress p 0 = Inr (Finite 0)"
  unfolding calculate_progress_def Let_def by (simp add: fl_zero pow2_def)

lemma calculate_progress_unknown:
  assumes "p \<notin> {''daily'', ''weekly'', ''monthly'', ''yearly''}"
  shows "calculate_progress p t = Inr (Finite 0)"
proof -
  from assms have "goals_hours p = None" by (simp add: goals_hours_def)
  then show ?thesis by (simp add: calculate_progress_def)
qed

lemma calculate_progress_daily_goal: "calculate_progress ''daily'' 18000 = Inr (Finite 100)"
  by code_simp

text \<open>
  C3. The effective \<^verbatim>\<open>calculate_progress\<close> has the goals 5, 25, 100 and 1200 hours,
  converted to seconds. For a known period and a total between \<open>2 ^ (- 900)\<close> and
  \<open>2 ^ 900\<close> seconds in magnitude it returns the float
  \<open>fl (fl (total / goal_seconds) * 100)\<close>, which differs from
  \<open>100 * total / goal_seconds\<close> by at most \<open>2 ^ (- 51)\<close> of its magnitude, and for
  the total 0 it returns 0. For any other period it returns 0. The daily goal of 18000
  seconds gives exactly 100.
\<close>

theorem calculate_progress_rounded:
  "goals_hours ''daily'' = Some 5 \<and> goals_hours ''weekly'' = Some 25
   \<and> goals_hours ''monthly'' = Some 100 \<and> goals_hours ''yearly'' = Some 1200
   \<and> (goals_hours p = Some h \<and> pow2 (- 900) \<le> \<bar>t\<bar> \<and> \<bar>t\<bar> \<le> pow2 900 \<longrightarrow>
        calculate_progress p t = Inr (Finite (fl (fl (t / of_int (h * 3600)) * 100)))
        \<and> \<bar>fl (fl (t / of_int (h * 3600)) * 100) - 100 * t / of_int (h * 3600)\<bar>
             \<le> \<bar>100 * t / of_int (h * 3600)\<bar> * pow2 (- 51))
   \<and> calculate_progress p 0 = Inr (Finite 0)
   \<and> (p \<notin> {''daily'', ''weekly'', ''monthly'', ''yearly''} \<longrightarrow> calculate_progress p t = Inr (Finite 0))
   \<and> calculate_progress ''daily'' 18000 = Inr (Finite 100)
   \<and> calculate_progress ''unknown'' 100 = Inr (Finite 0)"
proof (intro conjI impI)
  show "goals_hours ''daily'' = Some 5" by (simp add: goals_hours_def)
  show "goals_hours ''weekly'' = Some 25" by (simp add: goals_hours_def)
  show "goals_hours ''monthly'' = Some 100" by (simp add: goals_hours_def)
  show "goals_hours ''yearly'' = Some 1200" by (simp add: goals_hours_def)
  show "calculate_progress p 0 = Inr (Finite 0)" by (rule calculate_progress_zero)
  show "calculate_progress ''daily'' 18000 = Inr (Finite 100)" by (rule calculate_progress_daily_goal)
  show "calculate_progress ''unknown'' 100 = Inr (Finite 0)"
    by (rule calculate_progress_unknown) simp
next
  assume "p \<notin> {''daily'', ''weekly'', ''monthly'', ''yearly''}"
  then show "calculate_progress p t = Inr (Finite 0)" by (rule calculate_progress_unknown)
next
  assume a: "goals_hours p = Some h \<and> pow2 (- 900) \<le> \<bar>t\<bar> \<and> \<bar>t\<bar> \<le> pow2 900"
  then have h: "goals_hours p = Some h" and t1: "pow2 (- 900) \<le> \<bar>t\<bar>" and t2: "\<bar>t\<bar> \<le> pow2 900"
    by simp_all
  show "calculate_progress p t = Inr (Finite (fl (fl (t / of_int (h * 3600)) * 100)))"
    by (rule calculate_progress_known(1) [OF h t1 t2])
  show "\<bar>fl (fl (t / of_int (h * 3600)) * 100) - 100 * t / of_int (h * 3600)\<bar>
             \<le> \<bar>100 * t / of_int (h * 3600)\<bar> * pow2 (- 51)"
    by (rule calculate_progress_known(2) [OF h t1 t2])
qed

theorem calculate_progress_rounded_witness:
  "goals_hours ''daily'' = Some 5 \<and> pow2 (- 900) \<le> \<bar>20700\<bar> \<and> \<bar>20700\<bar> \<le> pow2 900
   \<and> calculate_progress ''daily'' 20700 = Inr (Finite (fl (fl (20700 / of_int (5 * 3600)) * 100)))
   \<and> \<bar>fl (fl (20700 / of_int (5 * 3600)) * 100) - 100 * 20700 / of_int (5 * 3600)\<bar>
        \<le> \<bar>100 * 20700 / of_int (5 * 3600)\<bar> * pow2 (- 51)
   \<and> ''hourly'' \<notin> {''daily'', ''weekly'', ''monthly'', ''yearly''}
   \<and> calculate_progress ''hourly'' 20700 = Inr (Finite 0)"
proof -
  note T = calculate_progress_rounded [of "''daily''" 5 20700]
  note U = calculate_progress_rounded [of "''hourly''" 5 20700]
  have h: "goals_hours ''daily'' = Some 5" by (simp add: goals_hours_def)
  have "pow2 (- 900) \<le> 1" by (rule pow2_le_one) simp
  then have t1: "pow2 (- 900) \<le> \<bar>20700\<bar>" by simp
  have "pow2 15 \<le> pow2 900" by (rule pow2_mono) simp
  moreover have "pow2 15 = 32768" by (simp add: pow2_def)
  ultimately have t2: "\<bar>20700\<bar> \<le> pow2 900" by simp
  have k: "calculate_progress ''daily'' 20700 = Inr (Finite (fl (fl (20700 / of_int (5 * 3600)) * 100)))
     \<and> \<bar>fl (fl (20700 / of_int (5 * 3600)) * 100) - 100 * 20700 / of_int (5 * 3600)\<bar>
        \<le> \<bar>100 * 20700 / of_int (5 * 3600)\<bar> * pow2 (- 51)"
    using T [THEN conjunct2, THEN conjunct2, THEN conjunct2, THEN conjunct2, THEN conjunct1, THEN mp,
             OF conjI [OF h conjI [OF t1 t2]]] .
  have n: "''hourly'' \<notin> {''daily'', ''weekly'', ''monthly'', ''yearly''}" by simp
  have u: "calculate_progress ''hourly'' 20700 = Inr (Finite 0)"
    using U [THEN conjunct2, THEN conjunct2, THEN conjunct2, THEN conjunct2, THEN conjunct2,
             THEN conjunct2, THEN conjunct1, THEN mp, OF n] .
  show ?thesis
    by (rule conjI [OF h conjI [OF t1 conjI [OF t2 conjI [OF k [THEN conjunct1] conjI [OF k [THEN conjunct2] conjI [OF n u]]]]]])
qed

text \<open>
  The result is not always \<open>100 * total / goal_seconds\<close>: for 20700 seconds and the
  daily goal the two roundings give 114.99999999999999 (the double below), not 115.
\<close>

theorem calculate_progress_exact_counterexample:
  "calculate_progress ''daily'' 20700 = Inr (Finite (8092405580431359 / 70368744177664))
   \<and> (8092405580431359 / 70368744177664 :: real) \<noteq> 100 * 20700 / (5 * 3600)"
  by code_simp

subsection \<open>Stopwatch\<close>

lemma timer_run_intervals:
  "timer_rel (done, cur) self \<Longrightarrow>
   \<exists>self'. timer_run es self = Inr self' \<and> timer_rel (intervals (done, cur) es) self'"
proof (induction es arbitrary: "done" cur self)
  case Nil
  then show ?case by simp
next
  case (Cons e es)
  obtain op t where e: "e = (op, t)" by (cases e)
  show ?case
  proof (cases op)
    case Start
    have "timer_rel (done, (case cur of None \<Rightarrow> Some t | Some s \<Rightarrow> Some s)) (start t self)"
      using Cons.prems by (auto simp: timer_rel_def start_def split: option.splits)
    from Cons.IH [OF this] show ?thesis using e Start by simp
  next
    case Stop
    show ?thesis
    proof (cases cur)
      case None
      then have "stop t self = Inr self" using Cons.prems by (simp add: timer_rel_def stop_def)
      moreover have "timer_rel (done, None) self" using Cons.prems None by simp
      ultimately show ?thesis using Cons.IH [of "done" None self] e Stop None by simp
    next
      case (Some s)
      let ?self' = "self\<lparr>total_time := total_time self + (t - s), start_time := None, running := False\<rparr>"
      have "stop t self = Inr ?self'" using Cons.prems Some by (simp add: timer_rel_def stop_def)
      moreover have "timer_rel (done @ [t - s], None) ?self'"
        using Cons.prems Some by (simp add: timer_rel_def)
      ultimately show ?thesis using Cons.IH [of "done @ [t - s]" None ?self'] e Stop Some by simp
    qed
  next
    case Reset
    have "timer_rel ([], None) (reset self)" by (simp add: timer_rel_def reset_def)
    from Cons.IH [OF this] show ?thesis using e Reset by simp
  next
    case Read
    have "get_total_time t self = Inr (spec_elapsed t (done, cur), self)"
      using Cons.prems by (auto simp: timer_rel_def get_total_time_def spec_elapsed_def split: option.splits)
    then show ?thesis using Cons.IH [OF Cons.prems] e Read by simp
  qed
qed

lemma get_total_time_rel:
  "timer_rel iv self \<Longrightarrow> get_total_time now self = Inr (spec_elapsed now iv, self)"
  by (cases iv) (auto simp: timer_rel_def get_total_time_def spec_elapsed_def split: option.splits)

lemma timer_rel_init: "timer_rel ([], None) PracticeTimer_init"
  by (simp add: timer_rel_def PracticeTimer_init_def)

lemma get_total_time_frame: "get_total_time now self = Inr (v, self') \<Longrightarrow> self' = self"
  by (auto simp: get_total_time_def split: if_splits option.splits)

text \<open>
  C9. For every sequence of \<^verbatim>\<open>PracticeTimer\<close> calls on a fresh timer, with the
  clock readings supplied: \<open>start\<close> changes nothing while running, \<open>stop\<close> changes
  nothing while idle, no call raises, \<open>get_total_time\<close> is the sum of the completed
  running intervals plus the current one when running, it leaves the object as it was,
  and after \<open>reset\<close> it is 0. Start, two seconds, stop gives 2; a further
  start and one second gives 3.
\<close>

theorem PracticeTimer_elapsed:
  "(running self \<longrightarrow> start now self = self)
   \<and> (\<not> running self \<longrightarrow> stop now self = Inr self)
   \<and> (\<exists>tm. timer_run es PracticeTimer_init = Inr tm
          \<and> get_total_time now tm = Inr (spec_elapsed now (intervals ([], None) es), tm)
          \<and> get_total_time now (reset tm) = Inr (0, reset tm))
   \<and> (\<forall>v self'. get_total_time now self = Inr (v, self') \<longrightarrow> self' = self)
   \<and> (\<exists>tm. timer_run [(Start, t0), (Stop, t0 + 2)] PracticeTimer_init = Inr tm
          \<and> get_total_time now tm = Inr (2, tm))
   \<and> (\<exists>tm. timer_run [(Start, t0), (Stop, t0 + 2), (Start, t1)] PracticeTimer_init = Inr tm
          \<and> get_total_time (t1 + 1) tm = Inr (3, tm))"
proof (intro conjI)
  show "running self \<longrightarrow> start now self = self" by (simp add: start_def)
  show "\<not> running self \<longrightarrow> stop now self = Inr self" by (simp add: stop_def)
  show "\<exists>tm. timer_run es PracticeTimer_init = Inr tm
          \<and> get_total_time now tm = Inr (spec_elapsed now (intervals ([], None) es), tm)
          \<and> get_total_time now (reset tm) = Inr (0, reset tm)"
  proof -
    from timer_run_intervals [OF timer_rel_init, of es]
    obtain tm where a: "timer_run es PracticeTimer_init = Inr tm"
      and b: "timer_rel (intervals ([], None) es) tm" by blast
    have "get_total_time now (reset tm) = Inr (0, reset tm)"
      by (simp add: get_total_time_def reset_def)
    with a get_total_time_rel [OF b] show ?thesis by blast
  qed
  show "\<forall>v self'. get_total_time now self = Inr (v, self') \<longrightarrow> self' = self"
    using get_total_time_frame by blast
  show "\<exists>tm. timer_run [(Start, t0), (Stop, t0 + 2)] PracticeTimer_init = Inr tm
          \<and> get_total_time now tm = Inr (2, tm)"
    by (simp add: PracticeTimer_init_def start_def stop_def get_total_time_def)
  show "\<exists>tm. timer_run [(Start, t0), (Stop, t0 + 2), (Start, t1)] PracticeTimer_init = Inr tm
          \<and> get_total_time (t1 + 1) tm = Inr (3, tm)"
    by (simp add: PracticeTimer_init_def start_def stop_def get_total_time_def)
qed

theorem PracticeTimer_elapsed_witness:
  "running (start 5 PracticeTimer_init)
   \<and> start 21 (start 5 PracticeTimer_init) = start 5 PracticeTimer_init
   \<and> \<not> running PracticeTimer_init
   \<and> stop 21 PracticeTimer_init = Inr PracticeTimer_init
   \<and> get_total_time 21 (start 5 PracticeTimer_init) = Inr (16, start 5 PracticeTimer_init)
   \<and> (\<exists>tm. timer_run [(Start, 10), (Read, 11), (Stop, 12), (Stop, 13), (Start, 20), (Start, 20.5)] PracticeTimer_init = Inr tm
          \<and> get_total_time 21 tm = Inr (3, tm))"
proof -
  note A = PracticeTimer_elapsed [of "start 5 PracticeTimer_init" 21
             "[(Start, 10), (Read, 11), (Stop, 12), (Stop, 13), (Start, 20), (Start, 20.5)]" 0 0]
  note B = PracticeTimer_elapsed [of PracticeTimer_init 21 "[]" 0 0]
  have r: "running (start 5 PracticeTimer_init)"
    by (simp add: start_def PracticeTimer_init_def)
  have i: "\<not> running PracticeTimer_init" by (simp add: PracticeTimer_init_def)
  have g: "get_total_time 21 (start 5 PracticeTimer_init) = Inr (16, start 5 PracticeTimer_init)"
    by (simp add: get_total_time_def start_def PracticeTimer_init_def)
  have c1: "start 21 (start 5 PracticeTimer_init) = start 5 PracticeTimer_init"
    using A [THEN conjunct1] r by (rule mp)
  have c2: "stop 21 PracticeTimer_init = Inr PracticeTimer_init"
    using B [THEN conjunct2, THEN conjunct1] i by (rule mp)
  have s: "spec_elapsed 21 (intervals ([], None) [(Start, 10), (Read, 11), (Stop, 12), (Stop, 13), (Start, 20), (Start, 20.5)]) = 3"
    by (simp add: spec_elapsed_def)
  have c3: "\<exists>tm. timer_run [(Start, 10), (Read, 11), (Stop, 12), (Stop, 13), (Start, 20), (Start, 20.5)] PracticeTimer_init = Inr tm
          \<and> get_total_time 21 tm = Inr (3, tm)"
    using A [THEN conjunct2, THEN conjunct2, THEN conjunct1] unfolding s by blast
  have "\<forall>v self'. get_total_time 21 (start 5 PracticeTimer_init) = Inr (v, self') \<longrightarrow> self' = start 5 PracticeTimer_init"
    using A [THEN conjunct2, THEN conjunct2, THEN conjunct2, THEN conjunct1] .
  from r c1 i c2 g c3 show ?thesis by (intro conjI)
qed

subsection \<open>Session store\<close>

lemma dict_get_dict_set: "dict_get (dict_set d k v) k' = (if k' = k then Some v else dict_get d k')"
  by (induction d) (auto simp: dict_get_def)

lemma dict_get_setdefault:
  "dict_get (setdefault d k v) k' =
     (if k' = k then (case dict_get d k of None \<Rightarrow> Some v | Some x \<Rightarrow> Some x) else dict_get d k')"
  by (simp add: setdefault_def dict_get_dict_set split: option.splits)

lemma load_defaults_get:
  "dict_get (load_defaults d) k =
     (if k \<in> {''composer'', ''work'', ''movement''} then
        (case dict_get d k of None \<Rightarrow> Some (JStr ''Unknown'') | Some x \<Rightarrow> Some x)
      else if k = ''notes'' then (case dict_get d k of None \<Rightarrow> Some (JStr '''') | Some x \<Rightarrow> Some x)
      else dict_get d k)"
  by (simp add: load_defaults_def Let_def dict_get_setdefault)

lemma load_loop_Inr:
  "load_loop xs = Inr ys \<Longrightarrow> r \<in> set ys \<Longrightarrow> \<exists>stored. JObj stored \<in> set xs \<and> r = JObj (load_defaults stored)"
proof (induction xs arbitrary: ys rule: load_loop.induct)
  case 1
  then show ?case by simp
next
  case (2 d rest)
  from 2(2) obtain rest' where l: "load_loop rest = Inr rest'" and ys: "ys = JObj (load_defaults d) # rest'"
    by (auto split: sum.splits)
  from 2(3) ys consider "r = JObj (load_defaults d)" | "r \<in> set rest'" by auto
  then show ?case
  proof cases
    case 1
    have "JObj d \<in> set (JObj d # rest)" by simp
    with 1 show ?thesis by (intro exI [of _ d] conjI)
  next
    case 2
    from "2.IH" [OF l 2] obtain stored where "JObj stored \<in> set rest" "r = JObj (load_defaults stored)"
      by (elim exE conjE)
    then have "JObj stored \<in> set (JObj d # rest) \<and> r = JObj (load_defaults stored)" by simp
    then show ?thesis by (rule exI)
  qed
qed simp_all

lemma load_loop_objs: "load_loop (map JObj ds) = Inr (map (\<lambda>d. JObj (load_defaults d)) ds)"
  by (induction ds) simp_all

lemma load_sessions_JArr:
  assumes "load_sessions f = JArr recs" and "r \<in> set recs"
  shows "\<exists>xs stored. f = FileJson (JArr xs) \<and> JObj stored \<in> set xs \<and> r = JObj (load_defaults stored)"
proof (cases f)
  case FileMissing
  with assms show ?thesis by (simp add: load_sessions_def)
next
  case FileUndecodable
  with assms show ?thesis by (simp add: load_sessions_def)
next
  case (FileJson v)
  show ?thesis
  proof (cases v)
    case (JArr xs)
    show ?thesis
    proof (cases "load_loop xs")
      case (Inl e)
      with assms FileJson JArr show ?thesis by (simp add: load_sessions_def)
    next
      case (Inr ys)
      with assms FileJson JArr have "ys = recs" by (simp add: load_sessions_def)
      with Inr assms(2) load_loop_Inr [of xs ys r] FileJson JArr show ?thesis by simp
    qed
  qed (use assms FileJson in \<open>simp_all add: load_sessions_def split: if_splits\<close>)
qed


text \<open>
  C7, as the code has it. \<^verbatim>\<open>load_sessions\<close> returns the empty list, or the records
  of the file each passed through \<open>load_defaults\<close>: \<^verbatim>\<open>composer\<close>, \<^verbatim>\<open>work\<close> and
  \<^verbatim>\<open>movement\<close> are \<^verbatim>\<open>Unknown\<close> and \<^verbatim>\<open>notes\<close> is the empty string when the key
  is absent; a value that is present is kept as stored, whatever it is, and no other
  key changes.
\<close>

theorem load_sessions_defaults:
  "(load_sessions f = JArr recs \<and> r \<in> set recs \<longrightarrow>
      (\<exists>xs stored. f = FileJson (JArr xs) \<and> JObj stored \<in> set xs \<and> r = JObj (load_defaults stored)))
   \<and> load_sessions (FileJson (JArr (map JObj ds))) = JArr (map (\<lambda>d. JObj (load_defaults d)) ds)
   \<and> (\<forall>k. dict_get (load_defaults d) k =
          (if k \<in> {''composer'', ''work'', ''movement''} then
             (case dict_get d k of None \<Rightarrow> Some (JStr ''Unknown'') | Some x \<Rightarrow> Some x)
           else if k = ''notes'' then (case dict_get d k of None \<Rightarrow> Some (JStr []) | Some x \<Rightarrow> Some x)
           else dict_get d k))"
proof (intro conjI impI allI)
  assume "load_sessions f = JArr recs \<and> r \<in> set recs"
  then show "\<exists>xs stored. f = FileJson (JArr xs) \<and> JObj stored \<in> set xs \<and> r = JObj (load_defaults stored)"
    using load_sessions_JArr [of f recs r] by simp
next
  show "load_sessions (FileJson (JArr (map JObj ds))) = JArr (map (\<lambda>d. JObj (load_defaults d)) ds)"
    by (simp add: load_sessions_def load_loop_objs)
next
  fix k
  show "dict_get (load_defaults d) k =
          (if k \<in> {''composer'', ''work'', ''movement''} then
             (case dict_get d k of None \<Rightarrow> Some (JStr ''Unknown'') | Some x \<Rightarrow> Some x)
           else if k = ''notes'' then (case dict_get d k of None \<Rightarrow> Some (JStr []) | Some x \<Rightarrow> Some x)
           else dict_get d k)"
    by (rule load_defaults_get)
qed

theorem load_sessions_defaults_witness:
  "(load_sessions (FileJson (JArr [JObj [(''work'', JStr ''Sonata'')]]))
      = JArr [JObj [(''work'', JStr ''Sonata''), (''composer'', JStr ''Unknown''),
                    (''movement'', JStr ''Unknown''), (''notes'', JStr [])]]
    \<and> JObj [(''work'', JStr ''Sonata''), (''composer'', JStr ''Unknown''),
                    (''movement'', JStr ''Unknown''), (''notes'', JStr [])]
        \<in> set [JObj [(''work'', JStr ''Sonata''), (''composer'', JStr ''Unknown''),
                    (''movement'', JStr ''Unknown''), (''notes'', JStr [])]])
   \<and> (\<exists>xs stored. FileJson (JArr [JObj [(''work'', JStr ''Sonata'')]]) = FileJson (JArr xs)
         \<and> JObj stored \<in> set xs
         \<and> JObj [(''work'', JStr ''Sonata''), (''composer'', JStr ''Unknown''),
                    (''movement'', JStr ''Unknown''), (''notes'', JStr [])] = JObj (load_defaults stored))
   \<and> dict_get (load_defaults [(''work'', JStr ''Sonata'')]) ''composer'' = Some (JStr ''Unknown'')
   \<and> dict_get (load_defaults [(''work'', JStr ''Sonata'')]) ''work'' = Some (JStr ''Sonata'')"
proof -
  let ?f = "FileJson (JArr [JObj [(''work'', JStr ''Sonata'')]])"
  let ?r = "JObj [(''work'', JStr ''Sonata''), (''composer'', JStr ''Unknown''),
                    (''movement'', JStr ''Unknown''), (''notes'', JStr [])]"
  note A = load_sessions_defaults [of ?f "[?r]" ?r "[]" "[(''work'', JStr ''Sonata'')]"]
  have h: "load_sessions ?f = JArr [?r] \<and> ?r \<in> set [?r]"
    by (simp add: load_sessions_def load_defaults_def setdefault_def dict_get_def)
  note c1 = A [THEN conjunct1, THEN mp, OF h]
  note g = A [THEN conjunct2, THEN conjunct2]
  have c2: "dict_get (load_defaults [(''work'', JStr ''Sonata'')]) ''composer'' = Some (JStr ''Unknown'')"
    using g [THEN spec, of "''composer''"] by (simp add: dict_get_def)
  have c3: "dict_get (load_defaults [(''work'', JStr ''Sonata'')]) ''work'' = Some (JStr ''Sonata'')"
    using g [THEN spec, of "''work''"] by (simp add: dict_get_def)
  show ?thesis by (rule conjI [OF h conjI [OF c1 conjI [OF c2 c3]]])
qed

text \<open>
  C7 as stated gives \<^verbatim>\<open>Unknown\<close> for every falsy stored value. A stored empty string
  and a stored \<^verbatim>\<open>null\<close> are returned as they are: \<^verbatim>\<open>setdefault\<close> only fills in
  absent keys.
\<close>

theorem load_sessions_falsy_counterexample:
  "load_sessions (FileJson (JArr [JObj [(''composer'', JStr []), (''work'', JNull)]]))
     = JArr [JObj [(''composer'', JStr []), (''work'', JNull),
                   (''movement'', JStr ''Unknown''), (''notes'', JStr [])]]
   \<and> dict_get (load_defaults [(''composer'', JStr []), (''work'', JNull)]) ''composer'' = Some (JStr [])
   \<and> dict_get (load_defaults [(''composer'', JStr []), (''work'', JNull)]) ''work'' = Some JNull"
  by (simp add: load_sessions_def load_defaults_def setdefault_def dict_get_def)

lemma save_defaults_date: "dict_get (save_defaults d) ''date'' = dict_get d ''date''"
  by (simp add: save_defaults_def Let_def dict_get_dict_set)

lemma save_session_rejected:
  assumes "\<not> date_parses (heap w session)"
  shows "\<exists>e. save_session io w session = (w\<lparr>heap := (heap w)(session := save_defaults (heap w session))\<rparr>, Some e)
             \<and> e \<in> {KeyError, TypeError, ValueError}"
proof (cases "dict_get (heap w session) ''date''")
  case None
  then show ?thesis
    by (simp add: save_session_def Let_def dict_item_def save_defaults_date)
next
  case (Some v)
  with assms obtain e where e: "strptime v = Inl e"
    by (auto simp: date_parses_def split: sum.splits)
  have "e \<in> {KeyError, TypeError, ValueError}"
  proof (cases v)
    case (JStr x)
    with e show ?thesis
      by (auto simp: strptime_ymd_def check_date_fields_def split: option.splits prod.splits if_splits)
  qed (use e in simp_all)
  with Some e show ?thesis
    by (simp add: save_session_def Let_def dict_item_def save_defaults_date)
qed

text \<open>
  C4. When the \<^verbatim>\<open>date\<close> of the session is absent, is not a string or does not
  parse, \<^verbatim>\<open>save_session\<close> returns, having caught the exception: the list of sessions
  and the file are as before, and so is every dictionary object other than the one passed
  in, which has had its defaults filled in. When that object is not already in the
  list, the contents of the list are as before.
\<close>

theorem save_session_unparsed_date:
  assumes "\<not> date_parses (heap w session)"
  shows "\<exists>w' e. save_session io w session = (w', Some e)
          \<and> e \<in> {KeyError, TypeError, ValueError}
          \<and> sessions_list w' = sessions_list w
          \<and> sessions_file w' = sessions_file w
          \<and> (\<forall>r. r \<noteq> session \<longrightarrow> heap w' r = heap w r)
          \<and> heap w' session = save_defaults (heap w session)
          \<and> (session \<notin> set (sessions_list w) \<longrightarrow>
                 map (heap w') (sessions_list w') = map (heap w) (sessions_list w))"
proof -
  let ?w' = "w\<lparr>heap := (heap w)(session := save_defaults (heap w session))\<rparr>"
  from save_session_rejected [OF assms, of io]
  obtain e where a: "save_session io w session = (?w', Some e)" and b: "e \<in> {KeyError, TypeError, ValueError}"
    by blast
  have c: "session \<notin> set (sessions_list w) \<longrightarrow> map (heap ?w') (sessions_list ?w') = map (heap w) (sessions_list w)"
    by (auto intro: map_cong)
  from a b c show ?thesis by simp
qed

theorem save_session_unparsed_date_witness:
  "\<not> date_parses (heap \<lparr>heap = (\<lambda>r. [])(0 := [(''date'', JStr ''2024-13-08''), (''composer'', JStr [])],
                                         1 := [(''date'', JStr ''2024-01-08'')]),
                       sessions_list = [1], sessions_file = FileMissing\<rparr> 0)
   \<and> (\<exists>w' e. save_session IoOk \<lparr>heap = (\<lambda>r. [])(0 := [(''date'', JStr ''2024-13-08''), (''composer'', JStr [])],
                                         1 := [(''date'', JStr ''2024-01-08'')]),
                       sessions_list = [1], sessions_file = FileMissing\<rparr> 0 = (w', Some e)
          \<and> sessions_list w' = [1]
          \<and> sessions_file w' = FileMissing
          \<and> map (heap w') (sessions_list w') = [[(''date'', JStr ''2024-01-08'')]])"
proof -
  let ?W = "\<lparr>heap = (\<lambda>r. [])(0 := [(''date'', JStr ''2024-13-08''), (''composer'', JStr [])],
                                         1 := [(''date'', JStr ''2024-01-08'')]),
                       sessions_list = [1::nat], sessions_file = FileMissing\<rparr>"
  have h: "\<not> date_parses (heap ?W 0)"
    by (simp add: date_parses_def dict_get_def strptime_ymd_def is_digit_def is_digit19_def digit_val_def)
  have n: "(0::nat) \<notin> set (sessions_list ?W)" by simp
  from save_session_unparsed_date [OF h, of IoOk]
  obtain w' e where a: "save_session IoOk ?W 0 = (w', Some e)"
    and b: "sessions_list w' = sessions_list ?W" and c: "sessions_file w' = sessions_file ?W"
    and d: "0 \<notin> set (sessions_list ?W) \<longrightarrow> map (heap w') (sessions_list w') = map (heap ?W) (sessions_list ?W)"
    by blast
  from d n have "map (heap w') (sessions_list w') = map (heap ?W) (sessions_list ?W)" by (rule mp)
  then have d': "map (heap w') (sessions_list w') = [[(''date'', JStr ''2024-01-08'')]]" by simp
  from b have b': "sessions_list w' = [1]" by simp
  from c have c': "sessions_file w' = FileMissing" by simp
  have "save_session IoOk ?W 0 = (w', Some e)
          \<and> sessions_list w' = [1] \<and> sessions_file w' = FileMissing
          \<and> map (heap w') (sessions_list w') = [[(''date'', JStr ''2024-01-08'')]]"
    by (rule conjI [OF a conjI [OF b' conjI [OF c' d']]])
  then have "\<exists>w' e. save_session IoOk ?W 0 = (w', Some e)
          \<and> sessions_list w' = [1] \<and> sessions_file w' = FileMissing
          \<and> map (heap w') (sessions_list w') = [[(''date'', JStr ''2024-01-08'')]]"
    by (intro exI)
  with h show ?thesis by (rule conjI)
qed

subsection \<open>Period filter\<close>

lemma valid_sessions_filter:
  "valid_sessions now p sessions = Inr vs \<Longrightarrow>
     vs = filter (kept now p) sessions \<and> (\<forall>s \<in> set sessions. session_date s \<noteq> None)"
proof (induction sessions arbitrary: vs)
  case Nil
  then show ?case by simp
next
  case (Cons s rest)
  from Cons.prems obtain v dt vs' where v: "dict_get s ''date'' = Some v" and dt: "strptime v = Inr dt"
    and r: "valid_sessions now p rest = Inr vs'"
    and vs: "vs = (if in_period now p dt then s # vs' else vs')"
    by (auto simp: dict_item_def split: option.splits sum.splits)
  from v dt have sd: "session_date s = Some dt" by (simp add: session_date_def)
  from Cons.IH [OF r] vs sd show ?case by (simp add: kept_def)
qed

lemma valid_sessions_total:
  "(\<forall>s \<in> set sessions. session_date s \<noteq> None) \<Longrightarrow> \<exists>vs. valid_sessions now p sessions = Inr vs"
proof (induction sessions)
  case Nil
  then show ?case by simp
next
  case (Cons s rest)
  then obtain vs' where r: "valid_sessions now p rest = Inr vs'" by auto
  from Cons.prems obtain v dt where "dict_get s ''date'' = Some v" "strptime v = Inr dt"
    by (auto simp: session_date_def split: option.splits sum.splits)
  with r show ?case by (simp add: dict_item_def)
qed

lemma map_fst_dict_set: "set (map fst (dict_set d k v)) = insert k (set (map fst d))"
proof (induction d)
  case Nil
  show ?case by simp
next
  case (Cons a d)
  obtain k' v' where a: "a = (k', v')" by (cases a)
  show ?case
  proof (cases "k' = k")
    case True
    then show ?thesis using a by simp
  next
    case False
    have "set (map fst (dict_set (a # d) k v)) = insert k' (set (map fst (dict_set d k v)))"
      using a False by simp
    also have "\<dots> = insert k' (insert k (set (map fst d)))" using Cons.IH by simp
    also have "\<dots> = insert k (set (map fst (a # d)))" using a by (simp add: insert_commute)
    finally show ?thesis .
  qed
qed

lemma fst_set_dict_set: "fst ` set (dict_set d k v) = insert k (fst ` set d)"
  using map_fst_dict_set [of d k v] by simp

lemma aggregate_keys:
  "aggregate stats vs = Inr res \<Longrightarrow>
     fst ` set res = fst ` set stats \<union> {v. \<exists>s \<in> set vs. dict_get s ''date'' = Some v}"
proof (induction vs arbitrary: stats)
  case Nil
  then show ?case by simp
next
  case (Cons s rest)
  from Cons.prems obtain date where d: "dict_get s ''date'' = Some date"
    by (auto simp: dict_item_def split: option.splits)
  from Cons.prems d obtain x where "aggregate (dict_set stats date x) rest = Inr res"
    by (auto simp: dict_item_def split: option.splits sum.splits)
  from Cons.IH [OF this] d show ?case by (auto simp: fst_set_dict_set)
qed

lemma in_period_future:
  assumes "toordinal now < toordinal dt"
  shows "p \<in> {''weekly'', ''monthly'', ''yearly''} \<Longrightarrow> in_period now p dt"
    and "p = ''daily'' \<Longrightarrow> \<not> in_period now p dt"
    and "days_between now dt < 0"
  using assms by (auto simp: in_period_def days_between_def)

lemma aggregate_total:
  assumes "\<forall>s \<in> set vs. dict_get s ''date'' \<noteq> None \<and> has_float_duration s"
    and "\<forall>k v. dict_get stats k = Some v \<longrightarrow> (\<exists>r. v = JFloat r)"
  shows "\<exists>res. aggregate stats vs = Inr res"
  using assms
proof (induction vs arbitrary: stats)
  case Nil
  show ?case by simp
next
  case (Cons s rest)
  from Cons.prems(1) obtain date where d: "dict_get s ''date'' = Some date" by auto
  from Cons.prems(1) have "has_float_duration s" by simp
  then obtain x where x: "dict_get s ''duration'' = Some (JFloat x)"
    by (auto simp: has_float_duration_def split: option.splits json.splits)
  from Cons.prems(1) have rest: "\<forall>s \<in> set rest. dict_get s ''date'' \<noteq> None \<and> has_float_duration s"
    by simp
  show ?case
  proof (cases "dict_get stats date")
    case None
    have inv: "\<forall>k v. dict_get (dict_set stats date (JFloat x)) k = Some v \<longrightarrow> (\<exists>r. v = JFloat r)"
      using Cons.prems(2) by (simp add: dict_get_dict_set)
    from Cons.IH [OF rest inv] obtain res where "aggregate (dict_set stats date (JFloat x)) rest = Inr res" ..
    with d x None show ?thesis by (simp add: dict_item_def)
  next
    case (Some old)
    with Cons.prems(2) obtain y where y: "old = JFloat y" by blast
    have inv: "\<forall>k v. dict_get (dict_set stats date (JFloat (y + x))) k = Some v \<longrightarrow> (\<exists>r. v = JFloat r)"
      using Cons.prems(2) by (simp add: dict_get_dict_set)
    from Cons.IH [OF rest inv] obtain res where "aggregate (dict_set stats date (JFloat (y + x))) rest = Inr res" ..
    with d x Some y show ?thesis by (simp add: dict_item_def)
  qed
qed

lemma session_date_has_date: "session_date s \<noteq> None \<Longrightarrow> dict_get s ''date'' \<noteq> None"
  by (auto simp: session_date_def split: option.splits)

lemma calculate_period_stats_total:
  assumes "\<forall>s \<in> set sessions. session_date s \<noteq> None \<and> has_float_duration s"
  shows "\<exists>stats. calculate_period_stats now sessions p = Inr stats"
proof (cases "sessions = []")
  case True
  then show ?thesis by (simp add: calculate_period_stats_def)
next
  case False
  from assms have "\<forall>s \<in> set sessions. session_date s \<noteq> None" by simp
  from valid_sessions_total [OF this] obtain vs where vs: "valid_sessions now p sessions = Inr vs" ..
  from valid_sessions_filter [OF vs] have "set vs \<subseteq> set sessions" by auto
  with assms have a: "\<forall>s \<in> set vs. dict_get s ''date'' \<noteq> None \<and> has_float_duration s"
    using session_date_has_date by blast
  have b: "\<forall>k v. dict_get ([] :: (json \<times> json) list) k = Some v \<longrightarrow> (\<exists>r. v = JFloat r)"
    by (simp add: dict_get_def)
  from aggregate_total [OF a b] obtain res where "aggregate [] vs = Inr res" ..
  with vs False show ?thesis by (simp add: calculate_period_stats_def)
qed

lemma calculate_period_stats_filter:
  assumes "calculate_period_stats now sessions p = Inr stats"
  shows "aggregate [] (filter (kept now p) sessions) = Inr stats"
    and "fst ` set stats = {v. \<exists>s' \<in> set sessions. kept now p s' \<and> dict_get s' ''date'' = Some v}"
proof -
  show agg: "aggregate [] (filter (kept now p) sessions) = Inr stats"
  proof (cases "sessions = []")
    case True
    with assms show ?thesis by (simp add: calculate_period_stats_def)
  next
    case False
    with assms obtain vs where vs: "valid_sessions now p sessions = Inr vs" and ag: "aggregate [] vs = Inr stats"
      by (auto simp: calculate_period_stats_def split: sum.splits)
    from valid_sessions_filter [OF vs] ag show ?thesis by simp
  qed
  from aggregate_keys [OF agg]
  show "fst ` set stats = {v. \<exists>s' \<in> set sessions. kept now p s' \<and> dict_get s' ''date'' = Some v}"
    by auto
qed

lemma kept_same_date:
  assumes "dict_get s ''date'' = Some v" and "dict_get s' ''date'' = Some v"
  shows "kept now p s' = kept now p s"
  using assms by (simp add: kept_def session_date_def)

text \<open>
  C10. A session dated later than \<open>now\<close> has a negative difference
  \<open>now - session_date\<close>. The result of \<^verbatim>\<open>calculate_period_stats\<close> is the aggregation
  of exactly the sessions that \<open>kept\<close> selects, and its dates are the dates of those
  sessions: for \<^verbatim>\<open>weekly\<close>, \<^verbatim>\<open>monthly\<close> and \<^verbatim>\<open>yearly\<close> the date of the future session
  is among them, for \<^verbatim>\<open>daily\<close> it is not. The call returns whenever every date parses
  and every duration is a float.
\<close>

theorem future_sessions_in_window:
  assumes "s \<in> set sessions" and "session_date s = Some dt" and "toordinal now < toordinal dt"
  shows "days_between now dt < 0
     \<and> (\<forall>vs. valid_sessions now p sessions = Inr vs \<longrightarrow>
           (p \<in> {''weekly'', ''monthly'', ''yearly''} \<longrightarrow> s \<in> set vs)
         \<and> (p = ''daily'' \<longrightarrow> s \<notin> set vs))
     \<and> (\<forall>stats. calculate_period_stats now sessions p = Inr stats \<longrightarrow>
           aggregate [] (filter (kept now p) sessions) = Inr stats
         \<and> fst ` set stats = {v. \<exists>s' \<in> set sessions. kept now p s' \<and> dict_get s' ''date'' = Some v}
         \<and> (\<forall>v. dict_get s ''date'' = Some v \<longrightarrow>
               (p \<in> {''weekly'', ''monthly'', ''yearly''} \<longrightarrow> v \<in> fst ` set stats)
             \<and> (p = ''daily'' \<longrightarrow> v \<notin> fst ` set stats)))
     \<and> ((\<forall>s' \<in> set sessions. session_date s' \<noteq> None \<and> has_float_duration s')
           \<longrightarrow> (\<exists>stats. calculate_period_stats now sessions p = Inr stats))"
proof (intro conjI allI impI)
  show "days_between now dt < 0" using assms(3) by (rule in_period_future(3))
next
  fix vs assume a: "valid_sessions now p sessions = Inr vs" and p: "p \<in> {''weekly'', ''monthly'', ''yearly''}"
  have "kept now p s" using assms(2) in_period_future(1) [OF assms(3) p] by (simp add: kept_def)
  with valid_sessions_filter [OF a] assms(1) show "s \<in> set vs" by simp
next
  fix vs assume a: "valid_sessions now p sessions = Inr vs" and p: "p = ''daily''"
  have "\<not> kept now p s" using assms(2) in_period_future(2) [OF assms(3) p] by (simp add: kept_def)
  with valid_sessions_filter [OF a] show "s \<notin> set vs" by simp
next
  fix stats assume a: "calculate_period_stats now sessions p = Inr stats"
  show "aggregate [] (filter (kept now p) sessions) = Inr stats"
    by (rule calculate_period_stats_filter(1) [OF a])
next
  fix stats assume a: "calculate_period_stats now sessions p = Inr stats"
  show "fst ` set stats = {v. \<exists>s' \<in> set sessions. kept now p s' \<and> dict_get s' ''date'' = Some v}"
    by (rule calculate_period_stats_filter(2) [OF a])
next
  fix stats v
  assume a: "calculate_period_stats now sessions p = Inr stats" and v: "dict_get s ''date'' = Some v"
    and p: "p \<in> {''weekly'', ''monthly'', ''yearly''}"
  have "kept now p s" using assms(2) in_period_future(1) [OF assms(3) p] by (simp add: kept_def)
  with assms(1) v have "v \<in> {v. \<exists>s' \<in> set sessions. kept now p s' \<and> dict_get s' ''date'' = Some v}"
    by auto
  then show "v \<in> fst ` set stats" by (simp only: calculate_period_stats_filter(2) [OF a])
next
  fix stats v
  assume a: "calculate_period_stats now sessions p = Inr stats" and v: "dict_get s ''date'' = Some v"
    and p: "p = ''daily''"
  have n: "\<not> kept now p s" using assms(2) in_period_future(2) [OF assms(3) p] by (simp add: kept_def)
  show "v \<notin> fst ` set stats"
  proof
    assume "v \<in> fst ` set stats"
    then have "v \<in> {v. \<exists>s' \<in> set sessions. kept now p s' \<and> dict_get s' ''date'' = Some v}"
      by (simp only: calculate_period_stats_filter(2) [OF a])
    then obtain s' where k: "kept now p s'" and d: "dict_get s' ''date'' = Some v" by auto
    from kept_same_date [OF v d] k n show False by simp
  qed
next
  assume "\<forall>s' \<in> set sessions. session_date s' \<noteq> None \<and> has_float_duration s'"
  then show "\<exists>stats. calculate_period_stats now sessions p = Inr stats"
    by (rule calculate_period_stats_total)
qed

theorem future_sessions_in_window_witness:
  "[(''date'', JStr ''2024-01-09''), (''duration'', JFloat 5)]
      \<in> set [[(''date'', JStr ''2024-01-08''), (''duration'', JFloat 3)],
              [(''date'', JStr ''2024-01-09''), (''duration'', JFloat 5)]]
   \<and> session_date [(''date'', JStr ''2024-01-09''), (''duration'', JFloat 5)] = Some (Date 2024 1 9)
   \<and> toordinal (Date 2024 1 8) < toordinal (Date 2024 1 9)
   \<and> days_between (Date 2024 1 8) (Date 2024 1 9) < 0
   \<and> valid_sessions (Date 2024 1 8) ''weekly''
        [[(''date'', JStr ''2024-01-08''), (''duration'', JFloat 3)],
         [(''date'', JStr ''2024-01-09''), (''duration'', JFloat 5)]]
       = Inr [[(''date'', JStr ''2024-01-08''), (''duration'', JFloat 3)],
              [(''date'', JStr ''2024-01-09''), (''duration'', JFloat 5)]]
   \<and> [(''date'', JStr ''2024-01-09''), (''duration'', JFloat 5)]
      \<in> set [[(''date'', JStr ''2024-01-08''), (''duration'', JFloat 3)],
              [(''date'', JStr ''2024-01-09''), (''duration'', JFloat 5)]]
   \<and> valid_sessions (Date 2024 1 8) ''daily''
        [[(''date'', JStr ''2024-01-08''), (''duration'', JFloat 3)],
         [(''date'', JStr ''2024-01-09''), (''duration'', JFloat 5)]]
       = Inr [[(''date'', JStr ''2024-01-08''), (''duration'', JFloat 3)]]
   \<and> [(''date'', JStr ''2024-01-09''), (''duration'', JFloat 5)]
      \<notin> set [[(''date'', JStr ''2024-01-08''), (''duration'', JFloat 3)]]
   \<and> calculate_period_stats (Date 2024 1 8)
        [[(''date'', JStr ''2024-01-08''), (''duration'', JFloat 3)],
         [(''date'', JStr ''2024-01-09''), (''duration'', JFloat 5)]] ''weekly''
       = Inr [(JStr ''2024-01-08'', JFloat 3), (JStr ''2024-01-09'', JFloat 5)]
   \<and> JStr ''2024-01-09'' \<in> fst ` set [(JStr ''2024-01-08'', JFloat 3), (JStr ''2024-01-09'', JFloat 5)]
   \<and> calculate_period_stats (Date 2024 1 8)
        [[(''date'', JStr ''2024-01-08''), (''duration'', JFloat 3)],
         [(''date'', JStr ''2024-01-09''), (''duration'', JFloat 5)]] ''daily''
       = Inr [(JStr ''2024-01-08'', JFloat 3)]
   \<and> JStr ''2024-01-09'' \<notin> fst ` set [(JStr ''2024-01-08'', JFloat 3)]
   \<and> session_date [(''date'', JStr ''2024-01-08''), (''duration'', JFloat 3)] \<noteq> None
   \<and> has_float_duration [(''date'', JStr ''2024-01-08''), (''duration'', JFloat 3)]
   \<and> has_float_duration [(''date'', JStr ''2024-01-09''), (''duration'', JFloat 5)]
   \<and> (\<exists>stats. calculate_period_stats (Date 2024 1 8)
        [[(''date'', JStr ''2024-01-08''), (''duration'', JFloat 3)],
         [(''date'', JStr ''2024-01-09''), (''duration'', JFloat 5)]] ''monthly'' = Inr stats)"
proof -
  let ?t = "[(''date'', JStr ''2024-01-08''), (''duration'', JFloat 3)]"
  let ?s = "[(''date'', JStr ''2024-01-09''), (''duration'', JFloat 5)]"
  let ?now = "Date 2024 1 8"
  have h1: "?s \<in> set [?t, ?s]" by simp
  have h2: "session_date ?s = Some (Date 2024 1 9)"
    by code_simp
  have h3: "toordinal ?now < toordinal (Date 2024 1 9)"
    by (simp add: toordinal_def ymd2ord_def days_before_year_def days_before_month_def DAYS_BEFORE_MONTH_def is_leap_def)
  note W = future_sessions_in_window [OF h1 h2 h3, of "''weekly''"]
  note D = future_sessions_in_window [OF h1 h2 h3, of "''daily''"]
  note M = future_sessions_in_window [OF h1 h2 h3, of "''monthly''"]
  have c0: "days_between ?now (Date 2024 1 9) < 0" using W [THEN conjunct1] .
  have vw: "valid_sessions ?now ''weekly'' [?t, ?s] = Inr [?t, ?s]" by code_simp
  have vd: "valid_sessions ?now ''daily'' [?t, ?s] = Inr [?t]" by code_simp
  have cw: "calculate_period_stats ?now [?t, ?s] ''weekly''
              = Inr [(JStr ''2024-01-08'', JFloat 3), (JStr ''2024-01-09'', JFloat 5)]" by code_simp
  have cd: "calculate_period_stats ?now [?t, ?s] ''daily'' = Inr [(JStr ''2024-01-08'', JFloat 3)]"
    by code_simp
  have pw: "''weekly'' \<in> {''weekly'', ''monthly'', ''yearly''}" by simp
  have c1: "?s \<in> set [?t, ?s]"
    using W [THEN conjunct2, THEN conjunct1, THEN spec, of "[?t, ?s]", THEN mp, OF vw, THEN conjunct1, THEN mp, OF pw] .
  have c2: "?s \<notin> set [?t]"
    using D [THEN conjunct2, THEN conjunct1, THEN spec, of "[?t]", THEN mp, OF vd, THEN conjunct2, THEN mp, OF refl] .
  have dg: "dict_get ?s ''date'' = Some (JStr ''2024-01-09'')" by (simp add: dict_get_def)
  have c3: "JStr ''2024-01-09'' \<in> fst ` set [(JStr ''2024-01-08'', JFloat 3), (JStr ''2024-01-09'', JFloat 5)]"
    using W [THEN conjunct2, THEN conjunct2, THEN conjunct1, THEN spec, THEN mp, OF cw,
             THEN conjunct2, THEN conjunct2, THEN spec, THEN mp, OF dg, THEN conjunct1, THEN mp, OF pw] .
  have c4: "JStr ''2024-01-09'' \<notin> fst ` set [(JStr ''2024-01-08'', JFloat 3)]"
    using D [THEN conjunct2, THEN conjunct2, THEN conjunct1, THEN spec, THEN mp, OF cd,
             THEN conjunct2, THEN conjunct2, THEN spec, THEN mp, OF dg, THEN conjunct2, THEN mp, OF refl] .
  have t1: "session_date ?t \<noteq> None" by code_simp
  have f1: "has_float_duration ?t" by (simp add: has_float_duration_def dict_get_def)
  have f2: "has_float_duration ?s" by (simp add: has_float_duration_def dict_get_def)
  have all: "\<forall>s' \<in> set [?t, ?s]. session_date s' \<noteq> None \<and> has_float_duration s'"
    using t1 f1 f2 h2 by simp
  have c5: "\<exists>stats. calculate_period_stats ?now [?t, ?s] ''monthly'' = Inr stats"
    using M [THEN conjunct2, THEN conjunct2, THEN conjunct2, THEN mp, OF all] .
  show ?thesis
    by (rule conjI [OF h1 conjI [OF h2 conjI [OF h3 conjI [OF c0 conjI [OF vw conjI [OF c1 conjI [OF vd
          conjI [OF c2 conjI [OF cw conjI [OF c3 conjI [OF cd conjI [OF c4 conjI [OF t1 conjI [OF f1
          conjI [OF f2 c5]]]]]]]]]]]]]]])
qed

text \<open>
  C2. With \<^verbatim>\<open>weekly\<close> and \<open>now\<close> = 2024-01-08, a session dated 2024-01-01 is kept
  and one dated 2023-12-31 is not; a session dated 2024-01-09, the day after \<open>now\<close>,
  is kept as well, although it is not within the seven days before \<open>now\<close>.
\<close>

theorem weekly_window_2024_01_08:
  "valid_sessions (Date 2024 1 8) ''weekly''
     [[(''date'', JStr ''2024-01-01'')], [(''date'', JStr ''2023-12-31'')], [(''date'', JStr ''2024-01-09'')]]
   = Inr [[(''date'', JStr ''2024-01-01'')], [(''date'', JStr ''2024-01-09'')]]"
  by code_simp

subsection \<open>The sort of the streak computation\<close>

lemma mset_py_sort_desc: "mset (py_sort_desc key xs) = mset xs"
  by (simp add: py_sort_desc_def)

lemma sorted_py_sort_desc: "sorted (rev (map key (py_sort_desc key xs)))"
  by (simp add: py_sort_desc_def rev_map)

lemma stable_py_sort_desc: "filter (\<lambda>x. key x = k) (py_sort_desc key xs) = filter (\<lambda>x. key x = k) xs"
  by (simp add: py_sort_desc_def rev_filter [symmetric] sort_key_stable)

lemma py_sort_desc_id: "sorted (rev (map key xs)) \<Longrightarrow> py_sort_desc key xs = xs"
proof -
  assume "sorted (rev (map key xs))"
  then have "sorted (map key (rev xs))" by (simp add: rev_map)
  then have "sort_key key (rev xs) = rev xs" by (rule sort_key_id_if_sorted)
  then show ?thesis by (simp add: py_sort_desc_def)
qed

lemma py_sort_desc_fixed_iff: "py_sort_desc key xs = xs \<longleftrightarrow> sorted (rev (map key xs))"
  using py_sort_desc_id [of key xs] sorted_py_sort_desc [of key xs] by auto

lemma calculate_streak_Inr:
  assumes "calculate_streak sessions = Inr (sessions', n)"
  shows "sessions' = py_sort_desc date_str sessions"
proof (cases "sessions = []")
  case True
  with assms show ?thesis by (simp add: calculate_streak_def py_sort_desc_def)
next
  case False
  with assms obtain srt where "sort_by_date sessions = Inr srt" and "sessions' = srt"
    by (auto simp: calculate_streak_def split: sum.splits list.splits)
  then show ?thesis by (auto simp: sort_by_date_def split: if_splits)
qed

text \<open>
  C8, as the code has it. \<^verbatim>\<open>calculate_streak\<close> sorts the list it is given in place.
  After a call that returns, the list is the stable descending sort by date string of the
  list before: the same sessions, each as often as before, in descending order of date,
  sessions of equal date in their former order. It equals the list before exactly when
  that was already in descending order of date.
\<close>

theorem calculate_streak_sorts_in_place:
  assumes "calculate_streak sessions = Inr (sessions', n)"
  shows "sessions' = py_sort_desc date_str sessions
     \<and> mset sessions' = mset sessions
     \<and> sorted (rev (map date_str sessions'))
     \<and> (\<forall>k. filter (\<lambda>s. date_str s = k) sessions' = filter (\<lambda>s. date_str s = k) sessions)
     \<and> (sessions' = sessions \<longleftrightarrow> sorted (rev (map date_str sessions)))"
  unfolding calculate_streak_Inr [OF assms]
  using mset_py_sort_desc [of date_str sessions] sorted_py_sort_desc [of date_str sessions]
    stable_py_sort_desc [of date_str _ sessions] py_sort_desc_fixed_iff [of date_str sessions]
  by simp

text \<open>
  C8 as stated has the list after the call equal to the list before, element for
  element. Two sessions in ascending order of date come back swapped.
\<close>

theorem calculate_streak_reorders_counterexample:
  "calculate_streak [[(''date'', JStr ''2024-01-07'')], [(''date'', JStr ''2024-01-08'')]]
     = Inr ([[(''date'', JStr ''2024-01-08'')], [(''date'', JStr ''2024-01-07'')]], 2)
   \<and> [[(''date'', JStr ''2024-01-08'')], [(''date'', JStr ''2024-01-07'')]]
     \<noteq> [[(''date'', JStr ''2024-01-07'')], [(''date'', JStr ''2024-01-08'')]]"
proof
  show "calculate_streak [[(''date'', JStr ''2024-01-07'')], [(''date'', JStr ''2024-01-08'')]]
     = Inr ([[(''date'', JStr ''2024-01-08'')], [(''date'', JStr ''2024-01-07'')]], 2)"
    by code_simp
  show "[[(''date'', JStr ''2024-01-08'')], [(''date'', JStr ''2024-01-07'')]]
     \<noteq> [[(''date'', JStr ''2024-01-07'')], [(''date'', JStr ''2024-01-08'')]]"
    by simp
qed

theorem calculate_streak_sorts_in_place_witness:
  "calculate_streak [[(''date'', JStr ''2024-01-07''), (''n'', JInt 1)], [(''date'', JStr ''2024-01-08'')],
                     [(''date'', JStr ''2024-01-07''), (''n'', JInt 2)]]
     = Inr ([[(''date'', JStr ''2024-01-08'')], [(''date'', JStr ''2024-01-07''), (''n'', JInt 1)],
             [(''date'', JStr ''2024-01-07''), (''n'', JInt 2)]], 2)
   \<and> mset [[(''date'', JStr ''2024-01-08'')], [(''date'', JStr ''2024-01-07''), (''n'', JInt 1)],
             [(''date'', JStr ''2024-01-07''), (''n'', JInt 2)]]
     = mset [[(''date'', JStr ''2024-01-07''), (''n'', JInt 1)], [(''date'', JStr ''2024-01-08'')],
                     [(''date'', JStr ''2024-01-07''), (''n'', JInt 2)]]"
proof -
  let ?in = "[[(''date'', JStr ''2024-01-07''), (''n'', JInt 1)], [(''date'', JStr ''2024-01-08'')],
                     [(''date'', JStr ''2024-01-07''), (''n'', JInt 2)]]"
  let ?out = "[[(''date'', JStr ''2024-01-08'')], [(''date'', JStr ''2024-01-07''), (''n'', JInt 1)],
             [(''date'', JStr ''2024-01-07''), (''n'', JInt 2)]]"
  have h: "calculate_streak ?in = Inr (?out, 2)" by code_simp
  note A = calculate_streak_sorts_in_place [OF h]
  from A have "mset ?out = mset ?in" by (elim conjE)
  with h show ?thesis by (rule conjI)
qed

subsection \<open>Calendar order and the order of date strings\<close>

lemma div_step:
  fixes y n :: int
  assumes "0 < n"
  shows "y div n = (y - 1) div n + (if y mod n = 0 then 1 else 0)"
proof (cases "y mod n = 0")
  case True
  have "y = n * (y div n) + y mod n" by simp
  with True have "y - 1 = n * (y div n - 1) + (n - 1)" by (simp add: algebra_simps)
  moreover have "0 \<le> n - 1" "n - 1 < n" using assms by simp_all
  ultimately have "(y - 1) div n = y div n - 1" by (rule int_div_pos_eq)
  with True show ?thesis by simp
next
  case False
  have r: "0 \<le> y mod n" "y mod n < n" using assms by simp_all
  with False have r1: "0 \<le> y mod n - 1" "y mod n - 1 < n" by simp_all
  have "y = n * (y div n) + y mod n" by simp
  then have "y - 1 = n * (y div n) + (y mod n - 1)" by simp
  from this r1 have "(y - 1) div n = y div n" by (rule int_div_pos_eq)
  with False show ?thesis by simp
qed

lemma mod_100_4: "(y::int) mod 100 = 0 \<Longrightarrow> y mod 4 = 0"
  using mod_mod_cancel [of 4 100 y] by simp

lemma mod_400_100: "(y::int) mod 400 = 0 \<Longrightarrow> y mod 100 = 0"
  using mod_mod_cancel [of 100 400 y] by simp

lemma days_in_year_eq:
  "days_in_year y = 365 + (if y mod 4 = 0 then 1 else 0) - (if y mod 100 = 0 then 1 else 0)
                        + (if y mod 400 = 0 then 1 else 0)"
proof (cases "y mod 400 = 0")
  case True
  then have "y mod 100 = 0" by (rule mod_400_100)
  moreover from this have "y mod 4 = 0" by (rule mod_100_4)
  ultimately show ?thesis using True by (simp add: days_in_year_def is_leap_def)
next
  case False
  show ?thesis
  proof (cases "y mod 100 = 0")
    case True
    then have "y mod 4 = 0" by (rule mod_100_4)
    with True False show ?thesis by (simp add: days_in_year_def is_leap_def)
  next
    case False
    with \<open>y mod 400 \<noteq> 0\<close> show ?thesis by (simp add: days_in_year_def is_leap_def)
  qed
qed

lemma days_before_year_Suc: "days_before_year (y + 1) = days_before_year y + days_in_year y"
proof -
  define e4 :: int where "e4 = (if y mod 4 = 0 then 1 else 0)"
  define e100 :: int where "e100 = (if y mod 100 = 0 then 1 else 0)"
  define e400 :: int where "e400 = (if y mod 400 = 0 then 1 else 0)"
  define q4 where "q4 = (y - 1) div 4"
  define q100 where "q100 = (y - 1) div 100"
  define q400 where "q400 = (y - 1) div 400"
  have a: "y div 4 = q4 + e4" unfolding q4_def e4_def by (rule div_step) simp
  have b: "y div 100 = q100 + e100" unfolding q100_def e100_def by (rule div_step) simp
  have c: "y div 400 = q400 + e400" unfolding q400_def e400_def by (rule div_step) simp
  have l: "days_before_year (y + 1) = y * 365 + y div 4 - y div 100 + y div 400"
    by (simp add: days_before_year_def)
  have r: "days_before_year y = (y - 1) * 365 + q4 - q100 + q400"
    unfolding q4_def q100_def q400_def by (simp add: days_before_year_def Let_def)
  have d: "days_in_year y = 365 + e4 - e100 + e400"
    unfolding e4_def e100_def e400_def by (rule days_in_year_eq)
  have "y * 365 = (y - 1) * 365 + 365" by (simp add: algebra_simps)
  with l r d a b c show ?thesis by linarith
qed

lemma days_before_year_mono_nat: "days_before_year y \<le> days_before_year (y + int k)"
proof (induction k)
  case 0
  show ?case by simp
next
  case (Suc k)
  have "days_before_year (y + int (Suc k)) = days_before_year (y + int k) + days_in_year (y + int k)"
    using days_before_year_Suc [of "y + int k"] by (simp add: algebra_simps)
  moreover have "0 \<le> days_in_year (y + int k)" by (simp add: days_in_year_def)
  ultimately show ?case using Suc by linarith
qed

lemma days_before_year_mono: "y \<le> y' \<Longrightarrow> days_before_year y \<le> days_before_year y'"
  using days_before_year_mono_nat [of y "nat (y' - y)"] by simp

lemma month_cases:
  assumes "1 \<le> m" "m \<le> 12"
  shows "m = 1 \<or> m = 2 \<or> m = 3 \<or> m = 4 \<or> m = 5 \<or> m = 6 \<or> m = 7 \<or> m = 8 \<or> m = 9 \<or> m = 10 \<or> m = 11 \<or> m = (12::int)"
  using assms by arith

lemma days_before_month_step:
  assumes "1 \<le> m" "m < 12"
  shows "days_before_month y (m + 1) = days_before_month y m + days_in_month y m"
proof -
  have "m = 1 \<or> m = 2 \<or> m = 3 \<or> m = 4 \<or> m = 5 \<or> m = 6 \<or> m = 7 \<or> m = 8 \<or> m = 9 \<or> m = 10 \<or> m = (11::int)"
    using assms by arith
  then show ?thesis
    by (elim disjE) (simp_all add: days_before_month_def days_in_month_def DAYS_BEFORE_MONTH_def DAYS_IN_MONTH_def)
qed

lemma days_in_month_pos:
  assumes "1 \<le> m" "m \<le> 12" shows "28 \<le> days_in_month y m"
  using month_cases [OF assms]
  by (elim disjE) (simp_all add: days_in_month_def DAYS_IN_MONTH_def)

lemma days_before_month_nonneg:
  assumes "1 \<le> m" "m \<le> 12" shows "0 \<le> days_before_month y m"
  using month_cases [OF assms]
  by (elim disjE) (simp_all add: days_before_month_def DAYS_BEFORE_MONTH_def)

lemma days_before_month_mono_nat:
  "1 \<le> m \<Longrightarrow> m + int k \<le> 12 \<Longrightarrow> days_before_month y m \<le> days_before_month y (m + int k)"
proof (induction k)
  case 0
  show ?case by simp
next
  case (Suc k)
  then have a: "days_before_month y m \<le> days_before_month y (m + int k)" by simp
  have "days_before_month y (m + int k + 1) = days_before_month y (m + int k) + days_in_month y (m + int k)"
    using Suc.prems by (intro days_before_month_step) simp_all
  moreover have "0 \<le> days_in_month y (m + int k)"
    using days_in_month_pos [of "m + int k" y] Suc.prems by simp
  ultimately show ?case using a by (simp add: algebra_simps)
qed

lemma days_before_month_next:
  assumes "1 \<le> m" "m < m'" "m' \<le> 12"
  shows "days_before_month y m + days_in_month y m \<le> days_before_month y m'"
proof -
  have "days_before_month y (m + 1) \<le> days_before_month y (m + 1 + int (nat (m' - (m + 1))))"
    using assms by (intro days_before_month_mono_nat) simp_all
  then have "days_before_month y (m + 1) \<le> days_before_month y m'" using assms by simp
  then show ?thesis using days_before_month_step [of m y] assms by simp
qed

lemma days_before_month_end:
  assumes "1 \<le> m" "m \<le> 12"
  shows "days_before_month y m + days_in_month y m \<le> days_in_year y"
  using month_cases [OF assms]
  by (elim disjE) (simp_all add: days_before_month_def days_in_month_def DAYS_BEFORE_MONTH_def DAYS_IN_MONTH_def days_in_year_def)

lemma toordinal_less:
  assumes "valid_date a" "valid_date b" "date_less a b"
  shows "toordinal a < toordinal b"
proof -
  obtain y m d where a: "a = Date y m d" by (cases a)
  obtain y' m' d' where b: "b = Date y' m' d'" by (cases b)
  from assms(1) a have va: "1 \<le> m" "m \<le> 12" "1 \<le> d" "d \<le> days_in_month y m" by (simp_all add: valid_date_def)
  from assms(2) b have vb: "1 \<le> m'" "m' \<le> 12" "1 \<le> d'" "d' \<le> days_in_month y' m'" by (simp_all add: valid_date_def)
  from assms(3) a b consider "y < y'" | "y = y'" "m < m'" | "y = y'" "m = m'" "d < d'"
    by (auto simp: date_less_def)
  then show ?thesis
  proof cases
    case 1
    have "toordinal a \<le> days_before_year y + days_in_year y"
      using days_before_month_end [OF va(1,2), of y] va a by (simp add: toordinal_def ymd2ord_def)
    also have "\<dots> = days_before_year (y + 1)" by (simp add: days_before_year_Suc)
    also have "\<dots> \<le> days_before_year y'" using 1 by (intro days_before_year_mono) simp
    also have "\<dots> < toordinal b"
      using days_before_month_nonneg [OF vb(1,2), of y'] vb b by (simp add: toordinal_def ymd2ord_def)
    finally show ?thesis .
  next
    case 2
    have "days_before_month y m + d \<le> days_before_month y m'"
      using days_before_month_next [OF va(1) 2(2) vb(2), of y] va by simp
    then show ?thesis using 2 vb a b by (simp add: toordinal_def ymd2ord_def)
  next
    case 3
    then show ?thesis using a b by (simp add: toordinal_def ymd2ord_def)
  qed
qed

lemma date_less_total: "date_less a b \<or> a = b \<or> date_less b a"
  by (cases a; cases b) (auto simp: date_less_def)

lemma toordinal_less_iff:
  assumes "valid_date a" "valid_date b"
  shows "toordinal a < toordinal b \<longleftrightarrow> date_less a b"
proof
  assume l: "toordinal a < toordinal b"
  from date_less_total [of a b] show "date_less a b"
  proof (elim disjE)
    assume "a = b" with l show ?thesis by simp
  next
    assume "date_less b a"
    from toordinal_less [OF assms(2,1) this] l show ?thesis by simp
  qed
next
  assume "date_less a b"
  then show "toordinal a < toordinal b" by (rule toordinal_less [OF assms])
qed

lemma of_char_digit_char:
  assumes "n < 10" shows "of_char (digit_char n) = 48 + n"
  using digit_char_cases [OF assms] by (auto simp: digit_char_def)

lemma digit_char_less:
  assumes "a < 10" "b < 10" shows "(digit_char a < digit_char b) = (a < b)"
  using of_char_digit_char [OF assms(1)] of_char_digit_char [OF assms(2)]
  by (simp add: less_char_def)

lemma digit_char_eq:
  assumes "a < 10" "b < 10" shows "(digit_char a = digit_char b) = (a = b)"
proof
  assume "digit_char a = digit_char b"
  then have "(of_char (digit_char a) :: nat) = of_char (digit_char b)" by simp
  then show "a = b" using of_char_digit_char [OF assms(1)] of_char_digit_char [OF assms(2)] by simp
qed simp

lemma digits10_small: "n < 10 \<Longrightarrow> digits10 n = [digit_char n]"
  by (subst digits10.simps) simp

lemma digits10_snoc: "10 \<le> n \<Longrightarrow> digits10 n = digits10 (n div 10) @ [digit_char (n mod 10)]"
  by (subst digits10.simps) simp

lemma digit_char_0: "digit_char 0 = CHR ''0''"
  by (simp add: digit_char_def)

lemma zfill_snoc:
  assumes "2 \<le> w"
  shows "zfill w (digits10 n) = zfill (w - 1) (digits10 (n div 10)) @ [digit_char (n mod 10)]"
proof (cases "n < 10")
  case True
  then have "n div 10 = 0" "n mod 10 = n" by simp_all
  moreover have "replicate (w - 1) (CHR ''0'') = replicate (w - 1 - 1) (CHR ''0'') @ [CHR ''0'']"
    using assms by (cases "w - 1") (simp_all add: replicate_append_same)
  ultimately show ?thesis using True
    by (simp add: digits10_small zfill_def digit_char_0)
next
  case False
  have "w - Suc (length (digits10 (n div 10))) = w - 1 - length (digits10 (n div 10))" by simp
  then show ?thesis using False by (simp add: digits10_snoc zfill_def)
qed

lemma zfill_one: "n < 10 \<Longrightarrow> zfill 1 (digits10 n) = [digit_char n]"
  by (simp add: digits10_small zfill_def)

lemma two_digits:
  assumes "n < 100"
  shows "zfill 2 (digits10 n) = [digit_char (n div 10), digit_char (n mod 10)]"
proof -
  have "n div 10 < 10" using assms by simp
  then have a: "zfill 1 (digits10 (n div 10)) = [digit_char (n div 10)]" by (rule zfill_one)
  have "zfill 2 (digits10 n) = zfill (2 - 1) (digits10 (n div 10)) @ [digit_char (n mod 10)]"
    by (rule zfill_snoc) simp
  also have "(2::nat) - 1 = 1" by simp
  finally show ?thesis unfolding a by simp
qed

lemma m1: "(n::nat) mod 100 div 10 = n div 10 mod 10"
proof -
  have "n mod 100 div 10 = n mod (10 * 10) div 10" by simp
  also have "\<dots> = n div 10 mod 10" by (simp only: mod_mult2_eq)
  finally show ?thesis .
qed
lemma m2: "(n::nat) mod 100 mod 10 = n mod 10"
  using mod_mod_cancel [of 10 100 n] by simp
lemma m3: "(n::nat) div 10 div 10 = n div 100"
  using div_mult2_eq [of n 10 10] by simp

lemma four_digits:
  assumes "n < 10000"
  shows "zfill 4 (digits10 n) = zfill 2 (digits10 (n div 100)) @ zfill 2 (digits10 (n mod 100))"
proof -
  have lo: "n mod 100 < 100" by simp
  note m1 = m1 [of n] and m2 = m2 [of n] and m3 = m3 [of n]
  have s4: "(4::nat) - 1 = 3" and s3: "(3::nat) - 1 = 2" by simp_all
  have a: "zfill 4 (digits10 n) = zfill (4 - 1) (digits10 (n div 10)) @ [digit_char (n mod 10)]"
    by (rule zfill_snoc) simp
  have b: "zfill 3 (digits10 (n div 10)) = zfill (3 - 1) (digits10 (n div 10 div 10)) @ [digit_char (n div 10 mod 10)]"
    by (rule zfill_snoc) simp
  have l: "zfill 4 (digits10 n) = zfill 2 (digits10 (n div 100)) @ [digit_char (n div 10 mod 10), digit_char (n mod 10)]"
    unfolding a s4 b s3 m3 by simp
  have r: "zfill 2 (digits10 (n mod 100)) = [digit_char (n div 10 mod 10), digit_char (n mod 10)]"
    using two_digits [OF lo] unfolding m1 m2 .
  show ?thesis unfolding l r ..
qed

lemma two_digits_less:
  assumes "n < 100" "m < 100"
  shows "(zfill 2 (digits10 n) @ r1 < zfill 2 (digits10 m) @ r2) = (n < m \<or> (n = m \<and> r1 < r2))"
proof -
  have b: "n div 10 < 10" "n mod 10 < 10" "m div 10 < 10" "m mod 10 < 10" using assms by simp_all
  have e: "n = 10 * (n div 10) + n mod 10" "m = 10 * (m div 10) + m mod 10" by simp_all
  obtain a1 a0 b1 b0 where d: "a1 = n div 10" "a0 = n mod 10" "b1 = m div 10" "b0 = m mod 10" by simp
  have "(zfill 2 (digits10 n) @ r1 < zfill 2 (digits10 m) @ r2)
        = (a1 < b1 \<or> (a1 = b1 \<and> (a0 < b0 \<or> (a0 = b0 \<and> r1 < r2))))"
    unfolding d using b
    by (simp add: two_digits [OF assms(1)] two_digits [OF assms(2)] digit_char_less digit_char_eq)
  also have "\<dots> = (n < m \<or> (n = m \<and> r1 < r2))"
  proof -
    from b e d have x: "a1 < 10" "a0 < 10" "b1 < 10" "b0 < 10" "n = 10 * a1 + a0" "m = 10 * b1 + b0" by simp_all
    show ?thesis
    proof (cases "r1 < r2")
      case True
      with x show ?thesis by auto
    next
      case False
      with x show ?thesis by auto
    qed
  qed
  finally show ?thesis .
qed

lemma four_digits_less:
  assumes "n < 10000" "m < 10000"
  shows "(zfill 4 (digits10 n) @ r1 < zfill 4 (digits10 m) @ r2) = (n < m \<or> (n = m \<and> r1 < r2))"
proof -
  have b: "n div 100 < 100" "n mod 100 < 100" "m div 100 < 100" "m mod 100 < 100" using assms by simp_all
  have e: "n = 100 * (n div 100) + n mod 100" "m = 100 * (m div 100) + m mod 100" by simp_all
  obtain a1 a0 b1 b0 where d: "a1 = n div 100" "a0 = n mod 100" "b1 = m div 100" "b0 = m mod 100" by simp
  have "(zfill 4 (digits10 n) @ r1 < zfill 4 (digits10 m) @ r2)
        = (a1 < b1 \<or> (a1 = b1 \<and> (a0 < b0 \<or> (a0 = b0 \<and> r1 < r2))))"
    unfolding d
    by (simp add: four_digits [OF assms(1)] four_digits [OF assms(2)] two_digits_less [OF b(1) b(3)]
        two_digits_less [OF b(2) b(4)])
  also have "\<dots> = (n < m \<or> (n = m \<and> r1 < r2))"
  proof -
    from b e d have x: "a1 < 100" "a0 < 100" "b1 < 100" "b0 < 100" "n = 100 * a1 + a0" "m = 100 * b1 + b0" by simp_all
    show ?thesis
    proof (cases "r1 < r2")
      case True
      with x show ?thesis by auto
    next
      case False
      with x show ?thesis by auto
    qed
  qed
  finally show ?thesis .
qed

lemma isoformat_less:
  assumes "valid_date a" "valid_date b"
  shows "(isoformat a < isoformat b) = date_less a b"
proof -
  obtain y m d where a: "a = Date y m d" by (cases a)
  obtain y' m' d' where b: "b = Date y' m' d'" by (cases b)
  from assms(1) a have va: "1 \<le> y" "y \<le> 9999" "1 \<le> m" "m \<le> 12" "1 \<le> d" "d \<le> days_in_month y m"
    by (simp_all add: valid_date_def)
  from assms(2) b have vb: "1 \<le> y'" "y' \<le> 9999" "1 \<le> m'" "m' \<le> 12" "1 \<le> d'" "d' \<le> days_in_month y' m'"
    by (simp_all add: valid_date_def)
  have dm: "days_in_month y m \<le> 31" "days_in_month y' m' \<le> 31"
    using month_cases [OF va(3,4)] month_cases [OF vb(3,4)]
    by (auto simp: days_in_month_def DAYS_IN_MONTH_def)
  have n: "nat y < 10000" "nat y' < 10000" "nat m < 100" "nat m' < 100" "nat d < 100" "nat d' < 100"
    using va vb dm by simp_all
  have fa: "isoformat a = zfill 4 (digits10 (nat y)) @ (CHR ''-'' # zfill 2 (digits10 (nat m)) @ (CHR ''-'' # zfill 2 (digits10 (nat d)) @ []))"
    using a va by (simp add: isoformat_def format_0w_def)
  have fb: "isoformat b = zfill 4 (digits10 (nat y')) @ (CHR ''-'' # zfill 2 (digits10 (nat m')) @ (CHR ''-'' # zfill 2 (digits10 (nat d')) @ []))"
    using b vb by (simp add: isoformat_def format_0w_def)
  have "(isoformat a < isoformat b) =
        (nat y < nat y' \<or> (nat y = nat y' \<and> (nat m < nat m' \<or> (nat m = nat m' \<and> nat d < nat d'))))"
    unfolding fa fb four_digits_less [OF n(1,2)] Cons_less_Cons two_digits_less [OF n(3,4)] two_digits_less [OF n(5,6)]
    by simp
  also have "\<dots> = date_less a b" using a b va vb by (auto simp: date_less_def)
  finally show ?thesis .
qed

subsection \<open>Streak\<close>

lemma strptime_ymd_valid: "strptime_ymd x = Inr dt \<Longrightarrow> valid_date dt"
  by (auto simp: strptime_ymd_def check_date_fields_def valid_date_def
      split: option.splits prod.splits if_splits)

lemma iso_dateD:
  assumes "iso_date s"
  obtains x dt where "dict_get s ''date'' = Some (JStr x)" "strptime_ymd x = Inr dt" "isoformat dt = x"
    "valid_date dt" "date_str s = x" "session_date s = Some dt" "session_ordinal s = toordinal dt"
proof -
  from assms obtain x where x: "dict_get s ''date'' = Some (JStr x)"
    by (auto simp: iso_date_def split: option.splits json.splits)
  with assms obtain dt where dt: "strptime_ymd x = Inr dt" "isoformat dt = x"
    by (auto simp: iso_date_def split: sum.splits)
  have "valid_date dt" using dt(1) by (rule strptime_ymd_valid)
  moreover have "date_str s = x" using x by (simp add: date_str_def)
  moreover have sd: "session_date s = Some dt" using x dt by (simp add: session_date_def)
  moreover have "session_ordinal s = toordinal dt" using sd by (simp add: session_ordinal_def)
  ultimately show ?thesis using that x dt by blast
qed

lemma iso_date_less:
  assumes "iso_date a" "iso_date b"
  shows "(date_str a < date_str b) = (session_ordinal a < session_ordinal b)"
proof -
  from assms(1) obtain x dt where a: "isoformat dt = x" "valid_date dt" "date_str a = x" "session_ordinal a = toordinal dt"
    by (rule iso_dateD)
  from assms(2) obtain x' dt' where b: "isoformat dt' = x'" "valid_date dt'" "date_str b = x'" "session_ordinal b = toordinal dt'"
    by (rule iso_dateD)
  have "(date_str a < date_str b) = (isoformat dt < isoformat dt')" using a b by simp
  also have "\<dots> = date_less dt dt'" using a(2) b(2) by (rule isoformat_less)
  also have "\<dots> = (toordinal dt < toordinal dt')" using toordinal_less_iff [OF a(2) b(2)] by simp
  finally show ?thesis using a b by simp
qed

lemma iso_date_le:
  assumes "iso_date a" "iso_date b"
  shows "(date_str a \<le> date_str b) = (session_ordinal a \<le> session_ordinal b)"
  using iso_date_less [OF assms(2,1)] by (simp add: not_less [symmetric])

lemma sorted_ordinals:
  assumes "\<forall>s \<in> set ss. iso_date s" "sorted (rev (map date_str ss))"
  shows "sorted (rev (map session_ordinal ss))"
proof -
  from assms(2) have "sorted_wrt (\<lambda>a b. date_str a \<le> date_str b) (rev ss)"
    by (simp add: rev_map sorted_map)
  then have "sorted_wrt (\<lambda>a b. session_ordinal a \<le> session_ordinal b) (rev ss)"
  proof (rule sorted_wrt_mono_rel [rotated])
    fix a b assume "a \<in> set (rev ss)" "b \<in> set (rev ss)" "date_str a \<le> date_str b"
    then show "session_ordinal a \<le> session_ordinal b" using assms(1) iso_date_le [of a b] by simp
  qed
  then show ?thesis by (simp add: rev_map sorted_map)
qed

lemma sort_by_date_iso:
  assumes "\<forall>s \<in> set sessions. iso_date s"
  shows "sort_by_date sessions = Inr (py_sort_desc date_str sessions)"
proof -
  have "\<forall>s \<in> set sessions. dict_get s ''date'' \<noteq> None \<and> is_str (dict_get s ''date'')"
  proof
    fix s assume "s \<in> set sessions"
    with assms have "iso_date s" by simp
    then obtain x where "dict_get s ''date'' = Some (JStr x)" by (rule iso_dateD)
    then show "dict_get s ''date'' \<noteq> None \<and> is_str (dict_get s ''date'')" by (simp add: is_str_def)
  qed
  then show ?thesis by (auto simp: sort_by_date_def)
qed

lemma streak_loop_walk:
  assumes "\<forall>s \<in> set ss. iso_date s"
  shows "streak_loop prev k ss = Inr (walk (toordinal prev) k (map session_ordinal ss))"
  using assms
proof (induction ss arbitrary: prev k)
  case Nil
  show ?case by simp
next
  case (Cons s ss)
  then have "iso_date s" by simp
  then obtain x dt where s: "dict_get s ''date'' = Some (JStr x)" "strptime_ymd x = Inr dt"
    "session_ordinal s = toordinal dt" by (rule iso_dateD)
  from Cons have ih: "\<And>prev k. streak_loop prev k ss = Inr (walk (toordinal prev) k (map session_ordinal ss))"
    by simp
  show ?case using s by (simp add: dict_item_def ih days_between_def)
qed

lemma remdups_adj_hd: "\<exists>t. remdups_adj (x # xs) = x # t"
  by (induction xs) auto

lemma advances_same: "advances (p # p # xs) = advances (p # xs)"
  by (simp add: advances_def)

lemma advances_step:
  assumes "p - x = 1"
  shows "advances (p # x # xs) = Suc (advances (x # xs))"
proof -
  obtain t where t: "remdups_adj (x # xs) = x # t" using remdups_adj_hd [of x xs] by blast
  from assms have "p \<noteq> x" by auto
  then have "remdups_adj (p # x # xs) = p # x # t" using t by simp
  then show ?thesis using t assms by (simp add: advances_def)
qed

lemma advances_break:
  assumes "p - x \<noteq> 1" "p - x \<noteq> 0"
  shows "advances (p # x # xs) = 0"
proof -
  obtain t where t: "remdups_adj (x # xs) = x # t" using remdups_adj_hd [of x xs] by blast
  from assms have "p \<noteq> x" by auto
  then have "remdups_adj (p # x # xs) = p # x # t" using t by simp
  then show ?thesis using assms by (simp add: advances_def)
qed

lemma walk_advances: "walk p k ds = k + int (advances (p # ds))"
proof (induction ds arbitrary: p k)
  case Nil
  show ?case by (simp add: advances_def)
next
  case (Cons x xs)
  consider "p - x = 1" | "p - x = 0" | "p - x \<noteq> 1" "p - x \<noteq> 0" by blast
  then show ?case
  proof cases
    case 1
    then show ?thesis using Cons [of x "k + 1"] by (simp add: advances_step)
  next
    case 2
    then have "x = p" by simp
    then show ?thesis using Cons [of p k] by (simp add: advances_same)
  next
    case 3
    then show ?thesis by (simp add: advances_break)
  qed
qed

lemma walk_card:
  assumes "sorted_wrt (\<lambda>a b. b \<le> a) ds" "\<forall>x \<in> set ds. x \<le> p"
  shows "walk p k ds = k + int (card {d. d < p \<and> {d..<p} \<subseteq> set ds})"
  using assms
proof (induction ds arbitrary: p k)
  case Nil
  have "{d. d < p \<and> {d..<p} \<subseteq> set []} = {}" by auto
  then show ?case by simp
next
  case (Cons x xs)
  from Cons.prems have srt: "sorted_wrt (\<lambda>a b. b \<le> a) xs" and le: "\<forall>y \<in> set xs. y \<le> x" and xp: "x \<le> p"
    by simp_all
  consider "x = p" | "x = p - 1" | "x < p - 1" using xp by linarith
  then show ?case
  proof cases
    case 1
    have "{d. d < p \<and> {d..<p} \<subseteq> set (x # xs)} = {d. d < p \<and> {d..<p} \<subseteq> set xs}"
      using 1 by auto
    moreover have "walk p k (x # xs) = walk p k xs" using 1 by simp
    moreover have "walk p k xs = k + int (card {d. d < p \<and> {d..<p} \<subseteq> set xs})"
      using Cons.IH [OF srt, of p k] le 1 by simp
    ultimately show ?thesis by simp
  next
    case 2
    let ?S = "{d. d < x \<and> {d..<x} \<subseteq> set xs}"
    have fin: "finite ?S"
    proof (rule finite_subset)
      show "?S \<subseteq> set xs" by auto
    qed simp
    have notin: "x \<notin> ?S" by simp
    have eq: "{d. d < p \<and> {d..<p} \<subseteq> set (x # xs)} = insert x ?S"
    proof (intro set_eqI iffI)
      fix d assume "d \<in> {d. d < p \<and> {d..<p} \<subseteq> set (x # xs)}"
      then have d: "d < p" "{d..<p} \<subseteq> insert x (set xs)" by simp_all
      show "d \<in> insert x ?S"
      proof (cases "d = x")
        case True then show ?thesis by simp
      next
        case False
        with d(1) 2 have dx: "d < x" by simp
        have "{d..<x} \<subseteq> set xs"
        proof
          fix e assume e: "e \<in> {d..<x}"
          then have "e \<in> {d..<p}" using 2 by simp
          with d(2) have "e \<in> insert x (set xs)" by blast
          with e show "e \<in> set xs" by simp
        qed
        with dx show ?thesis by simp
      qed
    next
      fix d assume "d \<in> insert x ?S"
      then consider "d = x" | "d < x" "{d..<x} \<subseteq> set xs" by blast
      then show "d \<in> {d. d < p \<and> {d..<p} \<subseteq> set (x # xs)}"
      proof cases
        case 1
        then have "{d..<p} = {x}" using 2 by auto
        with 1 2 show ?thesis by simp
      next
        case 2
        have "{d..<p} = insert x {d..<x}" using \<open>x = p - 1\<close> 2(1) by auto
        with 2 \<open>x = p - 1\<close> show ?thesis by auto
      qed
    qed
    have "walk p k (x # xs) = walk x (k + 1) xs" using 2 by simp
    also have "\<dots> = k + 1 + int (card ?S)" using Cons.IH [OF srt, of x "k + 1"] le by simp
    also have "\<dots> = k + int (card (insert x ?S))" using fin notin by simp
    finally show ?thesis unfolding eq .
  next
    case 3
    have e: "{d. d < p \<and> {d..<p} \<subseteq> set (x # xs)} = {}"
    proof (rule ccontr)
      assume "{d. d < p \<and> {d..<p} \<subseteq> set (x # xs)} \<noteq> {}"
      then obtain d where d: "d < p" "{d..<p} \<subseteq> set (x # xs)" by blast
      then have "p - 1 \<in> {d..<p}" by simp
      with d(2) have "p - 1 \<in> set (x # xs)" by blast
      then have "p - 1 \<le> x" using le by auto
      with 3 show False by simp
    qed
    have "walk p k (x # xs) = k" using 3 by simp
    then show ?thesis unfolding e by simp
  qed
qed

lemma streak_days_card:
  assumes "T \<in> D" "finite D"
  shows "card (streak_days D T) = Suc (card {d. d < T \<and> {d..<T} \<subseteq> D})"
proof -
  let ?S = "{d. d < T \<and> {d..<T} \<subseteq> D}"
  have fin: "finite ?S"
  proof (rule finite_subset)
    show "?S \<subseteq> D" by auto
  qed (rule assms(2))
  have "streak_days D T = insert T ?S"
  proof (intro set_eqI iffI)
    fix d assume "d \<in> streak_days D T"
    then have d: "d \<le> T" "{d..T} \<subseteq> D" by (simp_all add: streak_days_def)
    show "d \<in> insert T ?S"
    proof (cases "d = T")
      case True then show ?thesis by simp
    next
      case False
      with d(1) have "d < T" by simp
      moreover have "{d..<T} \<subseteq> D" using d(2) by auto
      ultimately show ?thesis by simp
    qed
  next
    fix d assume "d \<in> insert T ?S"
    then consider "d = T" | "d < T" "{d..<T} \<subseteq> D" by blast
    then show "d \<in> streak_days D T"
    proof cases
      case 1 then show ?thesis using assms(1) by (simp add: streak_days_def)
    next
      case 2
      have "{d..T} = insert T {d..<T}" using 2(1) by auto
      with 2 assms(1) show ?thesis by (simp add: streak_days_def)
    qed
  qed
  moreover have "T \<notin> ?S" by simp
  ultimately show ?thesis using fin by simp
qed

lemma set_py_sort_desc: "set (py_sort_desc key xs) = set xs"
  by (simp add: py_sort_desc_def)

lemma calculate_streak_iso:
  assumes "sessions \<noteq> []" "\<forall>s \<in> set sessions. iso_date s"
  shows "\<exists>first rest. py_sort_desc date_str sessions = first # rest
           \<and> calculate_streak sessions
               = Inr (first # rest, 1 + walk (session_ordinal first) 0 (map session_ordinal (first # rest)))"
proof -
  let ?srt = "py_sort_desc date_str sessions"
  have "set ?srt = set sessions" by (rule set_py_sort_desc)
  with assms have ne: "?srt \<noteq> []" and iso: "\<forall>s \<in> set ?srt. iso_date s" by auto
  from ne obtain first rest where fr: "?srt = first # rest" by (cases ?srt) auto
  with iso have "iso_date first" by simp
  then obtain x dt where f: "dict_get first ''date'' = Some (JStr x)" "strptime_ymd x = Inr dt"
    "session_ordinal first = toordinal dt" by (rule iso_dateD)
  have loop: "streak_loop dt 0 (first # rest) = Inr (walk (toordinal dt) 0 (map session_ordinal (first # rest)))"
    using iso unfolding fr by (rule streak_loop_walk)
  have "calculate_streak sessions
          = Inr (first # rest, 1 + walk (session_ordinal first) 0 (map session_ordinal (first # rest)))"
    using assms(1) sort_by_date_iso [OF assms(2)] fr f loop
    by (simp add: calculate_streak_def dict_item_def)
  with fr show ?thesis by blast
qed

lemma ordinals_sorted_desc:
  assumes "\<forall>s \<in> set sessions. iso_date s"
  shows "map session_ordinal (py_sort_desc date_str sessions) = rev (sort (map session_ordinal sessions))"
proof -
  let ?srt = "py_sort_desc date_str sessions"
  have "set ?srt = set sessions" by (rule set_py_sort_desc)
  with assms have iso: "\<forall>s \<in> set ?srt. iso_date s" by simp
  have s: "sorted (rev (map session_ordinal ?srt))"
    using iso sorted_py_sort_desc by (rule sorted_ordinals)
  have m: "mset (rev (map session_ordinal ?srt)) = mset (map session_ordinal sessions)"
    by (simp add: mset_py_sort_desc)
  have "sort (map session_ordinal sessions) = rev (map session_ordinal ?srt)"
    using m s by (rule properties_for_sort)
  then show ?thesis by simp
qed

lemma calculate_streak_spec:
  assumes "sessions \<noteq> []" "\<forall>s \<in> set sessions. iso_date s"
  shows "\<exists>T. T \<in> session_ordinal ` set sessions \<and> (\<forall>d \<in> session_ordinal ` set sessions. d \<le> T)
     \<and> calculate_streak sessions
          = Inr (py_sort_desc date_str sessions, 1 + int (advances (rev (sort (map session_ordinal sessions)))))
     \<and> map session_ordinal (py_sort_desc date_str sessions) = rev (sort (map session_ordinal sessions))
     \<and> 1 + int (advances (rev (sort (map session_ordinal sessions))))
          = int (card (streak_days (session_ordinal ` set sessions) T))"
proof -
  let ?srt = "py_sort_desc date_str sessions"
  let ?D = "session_ordinal ` set sessions"
  from calculate_streak_iso [OF assms] obtain first rest where fr: "?srt = first # rest"
    and cs: "calculate_streak sessions
               = Inr (first # rest, 1 + walk (session_ordinal first) 0 (map session_ordinal (first # rest)))"
    by (elim exE conjE)
  define T where "T = session_ordinal first"
  define ds where "ds = map session_ordinal rest"
  have ords: "map session_ordinal ?srt = rev (sort (map session_ordinal sessions))"
    using assms(2) by (rule ordinals_sorted_desc)
  have dsT: "map session_ordinal ?srt = T # ds" unfolding fr T_def ds_def by simp
  have "set (map session_ordinal ?srt) = ?D" by (simp add: set_py_sort_desc)
  then have setD: "set (T # ds) = ?D" unfolding dsT .
  have TD: "T \<in> ?D" unfolding setD [symmetric] by simp
  have "rev (T # ds) = sort (map session_ordinal sessions)" unfolding dsT [symmetric] ords by simp
  then have "sorted (rev (T # ds))" by (simp only: sorted_sort)
  then have sw: "sorted_wrt (\<lambda>a b. b \<le> a) (T # ds)" unfolding sorted_wrt_rev .
  then have "\<forall>x \<in> set ds. x \<le> T" by simp
  then have le: "\<forall>x \<in> set (T # ds). x \<le> T" by simp
  have w1: "walk T 0 (T # ds) = int (advances (T # ds))"
    using walk_advances [of T 0 "T # ds"] by (simp add: advances_same)
  have w2: "walk T 0 (T # ds) = int (card {d. d < T \<and> {d..<T} \<subseteq> ?D})"
    using walk_card [OF sw le, of 0] unfolding setD by simp
  have c: "card (streak_days ?D T) = Suc (card {d. d < T \<and> {d..<T} \<subseteq> ?D})"
    using TD by (rule streak_days_card) simp
  have cs': "calculate_streak sessions = Inr (?srt, 1 + walk T 0 (T # ds))"
    using cs unfolding fr T_def ds_def by simp
  have a: "calculate_streak sessions = Inr (?srt, 1 + int (advances (rev (sort (map session_ordinal sessions)))))"
    unfolding cs' w1 ords [symmetric] dsT ..
  have "1 + int (advances (T # ds)) = int (card (streak_days ?D T))"
    unfolding w1 [symmetric] w2 c by simp
  then have b: "1 + int (advances (rev (sort (map session_ordinal sessions)))) = int (card (streak_days ?D T))"
    unfolding ords [symmetric] dsT .
  have le': "\<forall>d \<in> ?D. d \<le> T" using le unfolding setD .
  show ?thesis
    by (rule exI [of _ T]) (rule conjI [OF TD conjI [OF le' conjI [OF a conjI [OF ords b]]]])
qed

lemma streak_days_three: "streak_days {T, T - 1, T - 2} T = {T, T - 1, T - 2}"
proof (intro set_eqI iffI)
  fix d assume "d \<in> streak_days {T, T - 1, T - 2} T"
  then have d: "d \<le> T" "{d..T} \<subseteq> {T, T - 1, T - 2}" by (simp_all add: streak_days_def)
  from d(1) have "d \<in> {d..T}" by simp
  with d(2) show "d \<in> {T, T - 1, T - 2}" by (rule subsetD)
next
  fix d assume "d \<in> {T, T - 1, T - 2}"
  then have r: "T - 2 \<le> d" "d \<le> T" by auto
  have "{d..T} \<subseteq> {T, T - 1, T - 2}"
  proof
    fix e assume "e \<in> {d..T}"
    with r have "T - 2 \<le> e" "e \<le> T" by simp_all
    then have "e = T \<or> e = T - 1 \<or> e = T - 2" by linarith
    then show "e \<in> {T, T - 1, T - 2}" by simp
  qed
  with r(2) show "d \<in> streak_days {T, T - 1, T - 2} T" by (simp add: streak_days_def)
qed

lemma streak_days_gap: "streak_days {T, T - 2} T = {T}"
proof (intro set_eqI iffI)
  fix d assume "d \<in> streak_days {T, T - 2} T"
  then have d: "d \<le> T" "{d..T} \<subseteq> {T, T - 2}" by (simp_all add: streak_days_def)
  show "d \<in> {T}"
  proof (rule ccontr)
    assume "d \<notin> {T}"
    then have "d \<noteq> T" by simp
    with d(1) have "d \<le> T - 1" by linarith
    then have "T - 1 \<in> {d..T}" by simp
    with d(2) have "T - 1 \<in> {T, T - 2}" by (rule subsetD)
    then show False by simp
  qed
next
  fix d assume "d \<in> {T}"
  then show "d \<in> streak_days {T, T - 2} T" by (simp add: streak_days_def)
qed

lemma max_of_three:
  fixes T :: int
  assumes "T' \<in> {T, T - 1, T - 2}" "\<forall>d \<in> {T, T - 1, T - 2}. d \<le> T'"
  shows "T' = T"
proof -
  from assms(2) have "T \<le> T'" by simp
  moreover from assms(1) have "T' \<le> T" by auto
  ultimately show ?thesis by simp
qed

lemma max_of_gap:
  fixes T :: int
  assumes "T' \<in> {T, T - 2}" "\<forall>d \<in> {T, T - 2}. d \<le> T'"
  shows "T' = T"
proof -
  from assms(2) have "T \<le> T'" by simp
  moreover from assms(1) have "T' \<le> T" by auto
  ultimately show ?thesis by simp
qed

lemma calculate_streak_examples:
  assumes "\<forall>s \<in> set sessions. iso_date s"
  shows "session_ordinal ` set sessions = {T, T - 1, T - 2} \<Longrightarrow> \<exists>srt. calculate_streak sessions = Inr (srt, 3)"
    and "session_ordinal ` set sessions = {T, T - 2} \<Longrightarrow> \<exists>srt. calculate_streak sessions = Inr (srt, 1)"
proof -
  assume D: "session_ordinal ` set sessions = {T, T - 1, T - 2}"
  then have ne: "sessions \<noteq> []" by auto
  from calculate_streak_spec [OF ne assms] obtain T' where T': "T' \<in> session_ordinal ` set sessions"
    "\<forall>d \<in> session_ordinal ` set sessions. d \<le> T'"
    and cs: "calculate_streak sessions
          = Inr (py_sort_desc date_str sessions, 1 + int (advances (rev (sort (map session_ordinal sessions)))))"
    and c: "1 + int (advances (rev (sort (map session_ordinal sessions))))
          = int (card (streak_days (session_ordinal ` set sessions) T'))" by blast
  from T' have "T' = T" unfolding D by (rule max_of_three)
  then have "card (streak_days (session_ordinal ` set sessions) T') = 3"
    unfolding D by (simp add: streak_days_three)
  with cs c show "\<exists>srt. calculate_streak sessions = Inr (srt, 3)" by simp
next
  assume D: "session_ordinal ` set sessions = {T, T - 2}"
  then have ne: "sessions \<noteq> []" by auto
  from calculate_streak_spec [OF ne assms] obtain T' where T': "T' \<in> session_ordinal ` set sessions"
    "\<forall>d \<in> session_ordinal ` set sessions. d \<le> T'"
    and cs: "calculate_streak sessions
          = Inr (py_sort_desc date_str sessions, 1 + int (advances (rev (sort (map session_ordinal sessions)))))"
    and c: "1 + int (advances (rev (sort (map session_ordinal sessions))))
          = int (card (streak_days (session_ordinal ` set sessions) T'))" by blast
  from T' have "T' = T" unfolding D by (rule max_of_gap)
  then have "card (streak_days (session_ordinal ` set sessions) T') = 1"
    unfolding D by (simp add: streak_days_gap)
  with cs c show "\<exists>srt. calculate_streak sessions = Inr (srt, 1)" by simp
qed

text \<open>
  C1. \<^verbatim>\<open>calculate_streak\<close> returns 0 for the empty list. For a non-empty list of
  sessions whose dates are written \<^verbatim>\<open>YYYY-MM-DD\<close>, it sorts the list so that the day
  numbers run from the most recent backwards, and returns one more than the number of
  single-day advances of that walk, same-day repeats skipped, up to the first step that is
  not one day; this is the number of days of the run of consecutive days that ends at the
  most recent day \<open>T\<close>. Sessions dated exactly \<open>T\<close>, \<open>T - 1\<close>, \<open>T - 2\<close> give 3, and
  sessions dated exactly \<open>T\<close>, \<open>T - 2\<close> give 1.
\<close>

theorem calculate_streak_consecutive_days:
  "calculate_streak [] = Inr ([], 0)
   \<and> (sessions \<noteq> [] \<and> (\<forall>s \<in> set sessions. iso_date s) \<longrightarrow>
        (\<exists>T. T \<in> session_ordinal ` set sessions \<and> (\<forall>d \<in> session_ordinal ` set sessions. d \<le> T)
           \<and> calculate_streak sessions
                = Inr (py_sort_desc date_str sessions,
                       1 + int (advances (rev (sort (map session_ordinal sessions)))))
           \<and> map session_ordinal (py_sort_desc date_str sessions) = rev (sort (map session_ordinal sessions))
           \<and> 1 + int (advances (rev (sort (map session_ordinal sessions))))
                = int (card (streak_days (session_ordinal ` set sessions) T))))
   \<and> ((\<forall>s \<in> set sessions. iso_date s) \<and> session_ordinal ` set sessions = {T, T - 1, T - 2} \<longrightarrow>
        (\<exists>srt. calculate_streak sessions = Inr (srt, 3)))
   \<and> ((\<forall>s \<in> set sessions. iso_date s) \<and> session_ordinal ` set sessions = {T, T - 2} \<longrightarrow>
        (\<exists>srt. calculate_streak sessions = Inr (srt, 1)))"
proof (intro conjI impI)
  show "calculate_streak [] = Inr ([], 0)" by (simp add: calculate_streak_def)
next
  assume "sessions \<noteq> [] \<and> (\<forall>s \<in> set sessions. iso_date s)"
  then have a: "sessions \<noteq> []" and b: "\<forall>s \<in> set sessions. iso_date s" by blast+
  from a b show "\<exists>T. T \<in> session_ordinal ` set sessions \<and> (\<forall>d \<in> session_ordinal ` set sessions. d \<le> T)
           \<and> calculate_streak sessions
                = Inr (py_sort_desc date_str sessions,
                       1 + int (advances (rev (sort (map session_ordinal sessions)))))
           \<and> map session_ordinal (py_sort_desc date_str sessions) = rev (sort (map session_ordinal sessions))
           \<and> 1 + int (advances (rev (sort (map session_ordinal sessions))))
                = int (card (streak_days (session_ordinal ` set sessions) T))"
    by (rule calculate_streak_spec)
next
  assume "(\<forall>s \<in> set sessions. iso_date s) \<and> session_ordinal ` set sessions = {T, T - 1, T - 2}"
  then have b: "\<forall>s \<in> set sessions. iso_date s" and D: "session_ordinal ` set sessions = {T, T - 1, T - 2}"
    by blast+
  from calculate_streak_examples(1) [OF b D] show "\<exists>srt. calculate_streak sessions = Inr (srt, 3)" .
next
  assume "(\<forall>s \<in> set sessions. iso_date s) \<and> session_ordinal ` set sessions = {T, T - 2}"
  then have b: "\<forall>s \<in> set sessions. iso_date s" and D: "session_ordinal ` set sessions = {T, T - 2}"
    by blast+
  from calculate_streak_examples(2) [OF b D] show "\<exists>srt. calculate_streak sessions = Inr (srt, 1)" .
qed

theorem calculate_streak_consecutive_days_witness:
  "(iso_date [(''date'', JStr ''2024-01-06'')] \<and> iso_date [(''date'', JStr ''2024-01-08'')]
      \<and> iso_date [(''date'', JStr ''2024-01-07'')])
   \<and> session_ordinal ` set [[(''date'', JStr ''2024-01-06'')], [(''date'', JStr ''2024-01-08'')], [(''date'', JStr ''2024-01-07'')]]
       = {738893, 738893 - 1, 738893 - 2}
   \<and> (\<exists>srt. calculate_streak [[(''date'', JStr ''2024-01-06'')], [(''date'', JStr ''2024-01-08'')], [(''date'', JStr ''2024-01-07'')]]
          = Inr (srt, 3))
   \<and> session_ordinal ` set [[(''date'', JStr ''2024-01-06'')], [(''date'', JStr ''2024-01-08'')]]
       = {738893, 738893 - 2}
   \<and> (\<exists>srt. calculate_streak [[(''date'', JStr ''2024-01-06'')], [(''date'', JStr ''2024-01-08'')]] = Inr (srt, 1))"
proof -
  let ?a = "[[(''date'', JStr ''2024-01-06'')], [(''date'', JStr ''2024-01-08'')], [(''date'', JStr ''2024-01-07'')]]"
  let ?b = "[[(''date'', JStr ''2024-01-06'')], [(''date'', JStr ''2024-01-08'')]]"
  have i6: "iso_date [(''date'', JStr ''2024-01-06'')]" by code_simp
  have i7: "iso_date [(''date'', JStr ''2024-01-07'')]" by code_simp
  have i8: "iso_date [(''date'', JStr ''2024-01-08'')]" by code_simp
  have ia: "\<forall>s \<in> set ?a. iso_date s" using i6 i7 i8 by simp
  have ib: "\<forall>s \<in> set ?b. iso_date s" using i6 i8 by simp
  have o6: "session_ordinal [(''date'', JStr ''2024-01-06'')] = 738891" by code_simp
  have o7: "session_ordinal [(''date'', JStr ''2024-01-07'')] = 738892" by code_simp
  have o8: "session_ordinal [(''date'', JStr ''2024-01-08'')] = 738893" by code_simp
  have da: "session_ordinal ` set ?a = {738893, 738893 - 1, 738893 - 2}"
    by (simp add: o6 o7 o8 insert_commute)
  have db: "session_ordinal ` set ?b = {738893, 738893 - 2}"
    by (simp add: o6 o8 insert_commute)
  note A = calculate_streak_consecutive_days [of ?a 738893]
  note B = calculate_streak_consecutive_days [of ?b 738893]
  have h1: "iso_date [(''date'', JStr ''2024-01-06'')] \<and> iso_date [(''date'', JStr ''2024-01-08'')]
      \<and> iso_date [(''date'', JStr ''2024-01-07'')]" using i6 i7 i8 by simp
  note c1 = A [THEN conjunct2, THEN conjunct2, THEN conjunct1, THEN mp, OF conjI [OF ia da]]
  note c2 = B [THEN conjunct2, THEN conjunct2, THEN conjunct2, THEN mp, OF conjI [OF ib db]]
  show ?thesis
    by (rule conjI [OF h1 conjI [OF da conjI [OF c1 conjI [OF db c2]]]])
qed

end
